theory Spec2Isabelle
  imports Complex_Main "HOL-Library.Word" "HOL-Library.Multiset"
begin

section \<open>The object store\<close>

text \<open>
  \<^verbatim>\<open>Graph.h\<close> builds a pointer graph: a \<^verbatim>\<open>Graph<T>\<close> holds \<^verbatim>\<open>Vertex<T>*\<close> in a vector and
  in a hash map, a vertex holds \<^verbatim>\<open>Edge<T>*\<close> in its \<^verbatim>\<open>adj\<close> and \<^verbatim>\<open>incoming\<close> vectors, and
  an edge points back to its two end points and to its reverse edge. Pointers are
  addresses (natural numbers) into two stores, one for vertex objects and one for
  edge objects; \<^verbatim>\<open>nullptr\<close> is \<open>None\<close>. The key type is \<^verbatim>\<open>int\<close>: the index is declared
  \<^verbatim>\<open>std::unordered_map<int, Vertex<T>*>\<close> and the traversals build a
  \<^verbatim>\<open>std::vector<int>\<close>, so the template is only usable at \<^verbatim>\<open>T = int\<close>. Keys are only
  copied, hashed and compared for equality. A \<^verbatim>\<open>double\<close> is a real number: weights are
  only stored, copied and compared.
\<close>

type_synonym vref = nat
type_synonym eref = nat

record vertex =
  info :: int
  adj :: "eref list"
  visited :: bool
  processing :: bool
  indegree :: "32 word"
  dist_v :: real
  path :: "eref option"
  incoming :: "eref list"
  queueIndex :: int

record edge =
  dest :: vref
  weight :: real
  selected :: bool
  orig :: vref
  reverse :: "eref option"
  flow :: real

text \<open>
  The graph with the memory it lives in. \<open>vnext\<close> and \<open>enext\<close> are the allocator: the
  address the next \<^verbatim>\<open>new Vertex\<close> (\<^verbatim>\<open>new Edge\<close>) returns. No address is handed out
  twice, so \<^verbatim>\<open>delete\<close> leaves the state as it is: the released object is no longer
  named by any list of the graph.
\<close>

record graph =
  vertexSet :: "vref list"
  vertexMap :: "int \<rightharpoonup> vref"
  vmem :: "vref \<Rightarrow> vertex"
  emem :: "eref \<Rightarrow> edge"
  vnext :: vref
  enext :: eref

abbreviation getInfo :: "graph \<Rightarrow> vref \<Rightarrow> int" where
  "getInfo g v \<equiv> info (vmem g v)"

abbreviation getAdj :: "graph \<Rightarrow> vref \<Rightarrow> eref list" where
  "getAdj g v \<equiv> adj (vmem g v)"

abbreviation getIncoming :: "graph \<Rightarrow> vref \<Rightarrow> eref list" where
  "getIncoming g v \<equiv> incoming (vmem g v)"

abbreviation isVisited :: "graph \<Rightarrow> vref \<Rightarrow> bool" where
  "isVisited g v \<equiv> visited (vmem g v)"

abbreviation isProcessing :: "graph \<Rightarrow> vref \<Rightarrow> bool" where
  "isProcessing g v \<equiv> processing (vmem g v)"

abbreviation getIndegree :: "graph \<Rightarrow> vref \<Rightarrow> 32 word" where
  "getIndegree g v \<equiv> indegree (vmem g v)"

abbreviation getDest :: "graph \<Rightarrow> eref \<Rightarrow> vref" where
  "getDest g e \<equiv> dest (emem g e)"

abbreviation getOrig :: "graph \<Rightarrow> eref \<Rightarrow> vref" where
  "getOrig g e \<equiv> orig (emem g e)"

abbreviation getWeight :: "graph \<Rightarrow> eref \<Rightarrow> real" where
  "getWeight g e \<equiv> weight (emem g e)"

abbreviation getReverse :: "graph \<Rightarrow> eref \<Rightarrow> eref option" where
  "getReverse g e \<equiv> reverse (emem g e)"

definition upd_vertex :: "vref \<Rightarrow> (vertex \<Rightarrow> vertex) \<Rightarrow> graph \<Rightarrow> graph" where
  "upd_vertex v f g = g\<lparr>vmem := (vmem g)(v := f (vmem g v))\<rparr>"

definition upd_edge :: "eref \<Rightarrow> (edge \<Rightarrow> edge) \<Rightarrow> graph \<Rightarrow> graph" where
  "upd_edge e f g = g\<lparr>emem := (emem g)(e := f (emem g e))\<rparr>"

definition setVisited :: "vref \<Rightarrow> bool \<Rightarrow> graph \<Rightarrow> graph" where
  "setVisited v b = upd_vertex v (\<lambda>x. x\<lparr>visited := b\<rparr>)"

definition setProcesssing :: "vref \<Rightarrow> bool \<Rightarrow> graph \<Rightarrow> graph" where
  "setProcesssing v b = upd_vertex v (\<lambda>x. x\<lparr>processing := b\<rparr>)"

definition setIndegree :: "vref \<Rightarrow> 32 word \<Rightarrow> graph \<Rightarrow> graph" where
  "setIndegree v n = upd_vertex v (\<lambda>x. x\<lparr>indegree := n\<rparr>)"

definition setReverse :: "eref \<Rightarrow> eref option \<Rightarrow> graph \<Rightarrow> graph" where
  "setReverse e r = upd_edge e (\<lambda>x. x\<lparr>reverse := r\<rparr>)"

text \<open>
  The constructors write the fields they initialise over whatever the fresh
  address held: \<^verbatim>\<open>Vertex(T in)\<close> leaves \<^verbatim>\<open>indegree\<close> uninitialised and
  \<^verbatim>\<open>Edge(orig, dest, w)\<close> leaves \<^verbatim>\<open>flow\<close> uninitialised.
\<close>

definition Vertex :: "int \<Rightarrow> vertex \<Rightarrow> vertex" where
  "Vertex i old = old\<lparr>info := i, adj := [], visited := False, processing := False,
     dist_v := 0, path := None, incoming := [], queueIndex := 0\<rparr>"

definition Edge :: "vref \<Rightarrow> vref \<Rightarrow> real \<Rightarrow> edge \<Rightarrow> edge" where
  "Edge o_v d_v w old = old\<lparr>dest := d_v, weight := w, selected := False, orig := o_v,
     reverse := None\<rparr>"

text \<open>A default-constructed \<^verbatim>\<open>Graph<T>\<close> in a memory with the given contents.\<close>

definition Graph :: "(vref \<Rightarrow> vertex) \<Rightarrow> (eref \<Rightarrow> edge) \<Rightarrow> graph" where
  "Graph vm em = \<lparr>vertexSet = [], vertexMap = Map.empty, vmem = vm, emem = em,
     vnext = 0, enext = 0\<rparr>"

section \<open>Vertex operations\<close>

text \<open>\<^verbatim>\<open>Vertex::addEdge\<close>: allocate the edge, append it to \<^verbatim>\<open>adj\<close> and to \<^verbatim>\<open>d->incoming\<close>.\<close>

definition Vertex_addEdge :: "vref \<Rightarrow> vref \<Rightarrow> real \<Rightarrow> graph \<Rightarrow> eref \<times> graph" where
  "Vertex_addEdge this d w g =
     (let newEdge = enext g;
          g1 = g\<lparr>emem := (emem g)(newEdge := Edge this d w (emem g newEdge)),
                 enext := Suc newEdge\<rparr>;
          g2 = upd_vertex this (\<lambda>x. x\<lparr>adj := adj x @ [newEdge]\<rparr>) g1;
          g3 = upd_vertex d (\<lambda>x. x\<lparr>incoming := incoming x @ [newEdge]\<rparr>) g2
      in (newEdge, g3))"

text \<open>
  \<^verbatim>\<open>Vertex::deleteEdge\<close>: erase from the destination's \<^verbatim>\<open>incoming\<close> every entry whose
  origin has the key of \<^verbatim>\<open>this\<close>, then release the edge.
\<close>

definition deleteEdge :: "vref \<Rightarrow> eref \<Rightarrow> graph \<Rightarrow> graph" where
  "deleteEdge this e g =
     (let d = getDest g e
      in upd_vertex d (\<lambda>x. x\<lparr>incoming :=
           filter (\<lambda>i. getInfo g (getOrig g i) \<noteq> getInfo g this) (incoming x)\<rparr>) g)"

text \<open>
  \<^verbatim>\<open>Vertex::removeEdge\<close>: the iterator splits \<^verbatim>\<open>adj\<close> into the entries already passed
  (\<open>kept\<close>) and the entries still ahead; \<^verbatim>\<open>adj.erase(it)\<close> drops the entry under the
  iterator.
\<close>

fun removeEdge_loop :: "vref \<Rightarrow> int \<Rightarrow> eref list \<Rightarrow> eref list \<Rightarrow> bool \<Rightarrow> graph \<Rightarrow> bool \<times> graph" where
  "removeEdge_loop this i kept [] removedEdge g = (removedEdge, g)"
| "removeEdge_loop this i kept (e # rest) removedEdge g =
     (if getInfo g (getDest g e) = i
      then removeEdge_loop this i kept rest True
             (deleteEdge this e (upd_vertex this (\<lambda>x. x\<lparr>adj := kept @ rest\<rparr>) g))
      else removeEdge_loop this i (kept @ [e]) rest removedEdge g)"

definition Vertex_removeEdge :: "vref \<Rightarrow> int \<Rightarrow> graph \<Rightarrow> bool \<times> graph" where
  "Vertex_removeEdge this i g = removeEdge_loop this i [] (getAdj g this) False g"

text \<open>\<^verbatim>\<open>Vertex::removeOutgoingEdges\<close>: erase the first entry until \<^verbatim>\<open>adj\<close> is empty.\<close>

fun removeOutgoingEdges_loop :: "vref \<Rightarrow> eref list \<Rightarrow> graph \<Rightarrow> graph" where
  "removeOutgoingEdges_loop this [] g = g"
| "removeOutgoingEdges_loop this (e # rest) g =
     removeOutgoingEdges_loop this rest
       (deleteEdge this e (upd_vertex this (\<lambda>x. x\<lparr>adj := rest\<rparr>) g))"

definition removeOutgoingEdges :: "vref \<Rightarrow> graph \<Rightarrow> graph" where
  "removeOutgoingEdges this g = removeOutgoingEdges_loop this (getAdj g this) g"

section \<open>Graph operations\<close>

definition getNumVertex :: "graph \<Rightarrow> nat" where
  "getNumVertex g = length (vertexSet g)"

definition findVertex :: "int \<Rightarrow> graph \<Rightarrow> vref option" where
  "findVertex i g = vertexMap g i"

definition addVertex :: "int \<Rightarrow> graph \<Rightarrow> bool \<times> graph" where
  "addVertex i g =
     (if findVertex i g \<noteq> None then (False, g)
      else let newVertex = vnext g
           in (True, g\<lparr>vmem := (vmem g)(newVertex := Vertex i (vmem g newVertex)),
                       vnext := Suc newVertex,
                       vertexSet := vertexSet g @ [newVertex],
                       vertexMap := (vertexMap g)(i \<mapsto> newVertex)\<rparr>))"

definition removeVertex :: "int \<Rightarrow> graph \<Rightarrow> bool \<times> graph" where
  "removeVertex i g =
     (case vertexMap g i of
        None \<Rightarrow> (False, g)
      | Some v \<Rightarrow>
          let g1 = fold (\<lambda>u h. if u \<noteq> v then snd (Vertex_removeEdge u (getInfo h v) h)
                                else removeOutgoingEdges u h) (vertexSet g) g
          in (True, g1\<lparr>vertexSet := removeAll v (vertexSet g1),
                       vertexMap := (vertexMap g1)(i := None)\<rparr>))"

definition addEdge :: "int \<Rightarrow> int \<Rightarrow> real \<Rightarrow> graph \<Rightarrow> bool \<times> graph" where
  "addEdge sourc dst w g =
     (case (findVertex sourc g, findVertex dst g) of
        (Some v1, Some v2) \<Rightarrow> (True, snd (Vertex_addEdge v1 v2 w g))
      | _ \<Rightarrow> (False, g))"

definition removeEdge :: "int \<Rightarrow> int \<Rightarrow> graph \<Rightarrow> bool \<times> graph" where
  "removeEdge sourc dst g =
     (case findVertex sourc g of
        None \<Rightarrow> (False, g)
      | Some srcVertex \<Rightarrow> Vertex_removeEdge srcVertex dst g)"

definition addBidirectionalEdge :: "int \<Rightarrow> int \<Rightarrow> real \<Rightarrow> graph \<Rightarrow> bool \<times> graph" where
  "addBidirectionalEdge sourc dst w g =
     (case (findVertex sourc g, findVertex dst g) of
        (Some v1, Some v2) \<Rightarrow>
          (let (e1, g1) = Vertex_addEdge v1 v2 w g;
               (e2, g2) = Vertex_addEdge v2 v1 w g1
           in (True, setReverse e2 (Some e1) (setReverse e1 (Some e2) g2)))
      | _ \<Rightarrow> (False, g))"

text \<open>\<^verbatim>\<open>std::numeric_limits<double>::max()\<close>, the value \<open>(2 - 2\<^sup>-\<^sup>5\<^sup>2) * 2\<^sup>1\<^sup>0\<^sup>2\<^sup>3\<close>.\<close>

definition DBL_MAX :: real where
  "DBL_MAX = 2 ^ 1024 - 2 ^ 971"

fun getEdgeWeight_loop :: "graph \<Rightarrow> int \<Rightarrow> eref list \<Rightarrow> real" where
  "getEdgeWeight_loop g destination [] = DBL_MAX"
| "getEdgeWeight_loop g destination (e # es) =
     (if getInfo g (getDest g e) = destination then getWeight g e
      else getEdgeWeight_loop g destination es)"

definition getEdgeWeight :: "int \<Rightarrow> int \<Rightarrow> graph \<Rightarrow> real" where
  "getEdgeWeight source destination g =
     (case findVertex source g of
        None \<Rightarrow> DBL_MAX
      | Some v \<Rightarrow> getEdgeWeight_loop g destination (getAdj g v))"

section \<open>Traversals\<close>

text \<open>
  The traversals are \<^verbatim>\<open>const\<close> member functions that write the scratch fields of the
  vertices through the stored pointers: they take the graph and return their result
  with the graph as they leave it. A recursion or a loop that the source does not
  bound is a partial function: \<open>None\<close> stands for a call that does not return.
\<close>

text \<open>
  \<^verbatim>\<open>Graph::dfsVisit\<close>. \<open>Inl v\<close> is a call \<^verbatim>\<open>dfsVisit(v, res)\<close>; \<open>Inr es\<close> is its
  \<^verbatim>\<open>for\<close> loop with the edges \<open>es\<close> of the copied \<^verbatim>\<open>adj\<close> vector still ahead.
\<close>

partial_function (option) dfsVisit_rec ::
  "vref + eref list \<Rightarrow> graph \<Rightarrow> int list \<Rightarrow> (int list \<times> graph) option" where
  "dfsVisit_rec c g res =
     (case c of
        Inl v \<Rightarrow> dfsVisit_rec (Inr (getAdj g v)) (setVisited v True g) (res @ [getInfo g v])
      | Inr es \<Rightarrow>
          (case es of
             [] \<Rightarrow> Some (res, g)
           | e # es' \<Rightarrow>
               (let w = getDest g e
                in if \<not> isVisited g w
                   then Option.bind (dfsVisit_rec (Inl w) g res)
                          (\<lambda>(res', g'). dfsVisit_rec (Inr es') g' res')
                   else dfsVisit_rec (Inr es') g res)))"

declare dfsVisit_rec.simps [code]

definition dfsVisit :: "vref \<Rightarrow> graph \<Rightarrow> int list \<Rightarrow> (int list \<times> graph) option" where
  "dfsVisit v g res = dfsVisit_rec (Inl v) g res"

definition dfsVisit_adj :: "eref list \<Rightarrow> graph \<Rightarrow> int list \<Rightarrow> (int list \<times> graph) option" where
  "dfsVisit_adj es g res = dfsVisit_rec (Inr es) g res"

definition resetVisited :: "graph \<Rightarrow> graph" where
  "resetVisited g = fold (\<lambda>v. setVisited v False) (vertexSet g) g"

fun dfs_loop :: "vref list \<Rightarrow> graph \<Rightarrow> int list \<Rightarrow> (int list \<times> graph) option" where
  "dfs_loop [] g res = Some (res, g)"
| "dfs_loop (v # vs) g res =
     (if \<not> isVisited g v
      then Option.bind (dfsVisit v g res) (\<lambda>(res', g'). dfs_loop vs g' res')
      else dfs_loop vs g res)"

text \<open>\<^verbatim>\<open>Graph::dfs()\<close>.\<close>

definition dfs :: "graph \<Rightarrow> (int list \<times> graph) option" where
  "dfs g = (let g0 = resetVisited g in dfs_loop (vertexSet g0) g0 [])"

text \<open>\<^verbatim>\<open>Graph::dfs(const T &source)\<close>.\<close>

definition dfs_from :: "int \<Rightarrow> graph \<Rightarrow> (int list \<times> graph) option" where
  "dfs_from source g =
     (case findVertex source g of
        None \<Rightarrow> Some ([], g)
      | Some s \<Rightarrow> dfsVisit s (resetVisited g) [])"

text \<open>\<^verbatim>\<open>Graph::bfs\<close>: the inner \<^verbatim>\<open>for\<close> loop over \<^verbatim>\<open>v->getAdj()\<close>, then the \<^verbatim>\<open>while\<close> loop.\<close>

fun bfs_adj :: "eref list \<Rightarrow> vref list \<Rightarrow> graph \<Rightarrow> vref list \<times> graph" where
  "bfs_adj [] q g = (q, g)"
| "bfs_adj (e # es) q g =
     (let w = getDest g e
      in if \<not> isVisited g w then bfs_adj es (q @ [w]) (setVisited w True g)
         else bfs_adj es q g)"

partial_function (option) bfs_loop ::
  "vref list \<Rightarrow> graph \<Rightarrow> int list \<Rightarrow> (int list \<times> graph) option" where
  "bfs_loop q g res =
     (case q of
        [] \<Rightarrow> Some (res, g)
      | v # q' \<Rightarrow>
          (let (q'', g') = bfs_adj (getAdj g v) q' g
           in bfs_loop q'' g' (res @ [getInfo g v])))"

declare bfs_loop.simps [code]

definition bfs :: "int \<Rightarrow> graph \<Rightarrow> (int list \<times> graph) option" where
  "bfs source g =
     (case findVertex source g of
        None \<Rightarrow> Some ([], g)
      | Some s \<Rightarrow> bfs_loop [s] (setVisited s True (resetVisited g)) [])"

text \<open>
  \<^verbatim>\<open>Graph::dfsIsDAG\<close>. \<open>Inl v\<close> is a call \<^verbatim>\<open>dfsIsDAG(v)\<close>; \<open>Inr (v, es)\<close> is its
  \<^verbatim>\<open>for\<close> loop with the edges \<open>es\<close> still ahead.
\<close>

partial_function (option) dfsIsDAG_rec ::
  "vref + vref \<times> eref list \<Rightarrow> graph \<Rightarrow> (bool \<times> graph) option" where
  "dfsIsDAG_rec c g =
     (case c of
        Inl v \<Rightarrow> dfsIsDAG_rec (Inr (v, getAdj g v)) (setProcesssing v True (setVisited v True g))
      | Inr (v, es) \<Rightarrow>
          (case es of
             [] \<Rightarrow> Some (True, setProcesssing v False g)
           | e # es' \<Rightarrow>
               (let w = getDest g e
                in if isProcessing g w then Some (False, g)
                   else if \<not> isVisited g w
                   then Option.bind (dfsIsDAG_rec (Inl w) g)
                          (\<lambda>(b, g'). if \<not> b then Some (False, g')
                                     else dfsIsDAG_rec (Inr (v, es')) g')
                   else dfsIsDAG_rec (Inr (v, es')) g)))"

declare dfsIsDAG_rec.simps [code]

definition dfsIsDAG :: "vref \<Rightarrow> graph \<Rightarrow> (bool \<times> graph) option" where
  "dfsIsDAG v g = dfsIsDAG_rec (Inl v) g"

definition dfsIsDAG_adj :: "vref \<Rightarrow> eref list \<Rightarrow> graph \<Rightarrow> (bool \<times> graph) option" where
  "dfsIsDAG_adj v es g = dfsIsDAG_rec (Inr (v, es)) g"

fun isDAG_loop :: "vref list \<Rightarrow> graph \<Rightarrow> (bool \<times> graph) option" where
  "isDAG_loop [] g = Some (True, g)"
| "isDAG_loop (v # vs) g =
     (if \<not> isVisited g v
      then Option.bind (dfsIsDAG v g)
             (\<lambda>(b, g'). if \<not> b then Some (False, g') else isDAG_loop vs g')
      else isDAG_loop vs g)"

definition isDAG :: "graph \<Rightarrow> (bool \<times> graph) option" where
  "isDAG g =
     (let g0 = fold (\<lambda>v h. setProcesssing v False (setVisited v False h)) (vertexSet g) g
      in isDAG_loop (vertexSet g0) g0)"

text \<open>
  \<^verbatim>\<open>Graph::topsort\<close>. \<^verbatim>\<open>indegree\<close> is an \<^verbatim>\<open>unsigned int\<close>: \<open>+ 1\<close> and \<open>- 1\<close> wrap
  around at \<open>2\<^sup>3\<^sup>2\<close>.
\<close>

definition count_indegrees :: "graph \<Rightarrow> graph" where
  "count_indegrees g =
     fold (\<lambda>v h. fold (\<lambda>e k. setIndegree (getDest k e) (getIndegree k (getDest k e) + 1) k)
                    (getAdj h v) h)
       (vertexSet g) g"

fun topsort_adj :: "eref list \<Rightarrow> vref list \<Rightarrow> graph \<Rightarrow> vref list \<times> graph" where
  "topsort_adj [] q g = (q, g)"
| "topsort_adj (e # es) q g =
     (let w = getDest g e;
          g' = setIndegree w (getIndegree g w - 1) g
      in if getIndegree g' w = 0 then topsort_adj es (q @ [w]) g'
         else topsort_adj es q g')"

partial_function (option) topsort_loop ::
  "vref list \<Rightarrow> graph \<Rightarrow> int list \<Rightarrow> (int list \<times> graph) option" where
  "topsort_loop q g res =
     (case q of
        [] \<Rightarrow> Some (res, g)
      | v # q' \<Rightarrow>
          (let (q'', g') = topsort_adj (getAdj g v) q' g
           in topsort_loop q'' g' (res @ [getInfo g v])))"

declare topsort_loop.simps [code]

definition topsort :: "graph \<Rightarrow> (int list \<times> graph) option" where
  "topsort g =
     (let g1 = fold (\<lambda>v. setIndegree v 0) (vertexSet g) g;
          g2 = count_indegrees g1;
          q = filter (\<lambda>v. getIndegree g2 v = 0) (vertexSet g2)
      in Option.bind (topsort_loop q g2 [])
           (\<lambda>(res, g'). if length res \<noteq> length (vertexSet g') then Some ([], g')
                         else Some (res, g')))"
section \<open>Example graphs\<close>

text \<open>A memory whose every cell holds zeroes, and graphs built in it by the public operations.\<close>

definition blank_vertex :: vertex where
  "blank_vertex = \<lparr>info = 0, adj = [], visited = False, processing = False, indegree = 0,
     dist_v = 0, path = None, incoming = [], queueIndex = 0\<rparr>"

definition blank_edge :: edge where
  "blank_edge = \<lparr>dest = 0, weight = 0, selected = False, orig = 0, reverse = None, flow = 0\<rparr>"

definition empty_graph :: graph where
  "empty_graph = Graph (\<lambda>_. blank_vertex) (\<lambda>_. blank_edge)"

fun addVertices :: "int list \<Rightarrow> graph \<Rightarrow> graph" where
  "addVertices [] g = g"
| "addVertices (k # ks) g = addVertices ks (snd (addVertex k g))"

fun addEdges :: "(int \<times> int \<times> real) list \<Rightarrow> graph \<Rightarrow> graph" where
  "addEdges [] g = g"
| "addEdges ((s, d, w) # es) g = addEdges es (snd (addEdge s d w g))"

text \<open>Keys 1, 2, 3 with the edges 1\<rightarrow>2 (twice, weights 5 and 9) and 2\<rightarrow>3.\<close>

definition graph_S1 :: graph where
  "graph_S1 = addEdges [(1, 2, 5), (1, 2, 9), (2, 3, 7)] (addVertices [1, 2, 3] empty_graph)"

text \<open>Keys 1, 2 with one edge 1\<rightarrow>2 whose weight is the largest double.\<close>

definition graph_max :: graph where
  "graph_max = addEdges [(1, 2, DBL_MAX)] (addVertices [1, 2] empty_graph)"

text \<open>Keys 1, 2 with one edge 1\<rightarrow>2 of weight 1.\<close>

definition graph_one_edge :: graph where
  "graph_one_edge = addEdges [(1, 2, 1)] (addVertices [1, 2] empty_graph)"

text \<open>Scenario S3: keys 1 to 5 with the edges 1\<rightarrow>2, 1\<rightarrow>3, 2\<rightarrow>4, 3\<rightarrow>5.\<close>

definition graph_S3 :: graph where
  "graph_S3 = addEdges [(1, 2, 1), (1, 3, 1), (2, 4, 1), (3, 5, 1)]
     (addVertices [1, 2, 3, 4, 5] empty_graph)"

text \<open>Scenario S4: keys 1 to 4 with the edges 1\<rightarrow>2, 1\<rightarrow>3, 2\<rightarrow>4, 3\<rightarrow>4, a DAG.\<close>

definition graph_S4 :: graph where
  "graph_S4 = addEdges [(1, 2, 1), (1, 3, 1), (2, 4, 1), (3, 4, 1)]
     (addVertices [1, 2, 3, 4] empty_graph)"

text \<open>Scenario S5: the graph of S4 with the edge 4\<rightarrow>1 added, which closes a cycle.\<close>

definition graph_S5 :: graph where
  "graph_S5 = addEdges [(4, 1, 1)] graph_S4"

text \<open>Keys 1, 2 with \<open>2\<^sup>3\<^sup>2\<close> parallel edges 1\<rightarrow>2.\<close>

definition graph_wrap :: graph where
  "graph_wrap = addEdges (replicate (2 ^ 32) (1, 2, 1)) (addVertices [1, 2] empty_graph)"

text \<open>
  What the graph of keys 1, 2 looks like while parallel edges 1\<rightarrow>2 are added: the two
  vertices are at the addresses 0 and 1, and every edge leaves the first for the second.
\<close>

definition two_keys :: "graph \<Rightarrow> bool" where
  "two_keys g \<longleftrightarrow> vertexSet g = [0, 1] \<and> vertexMap g 1 = Some 0 \<and> vertexMap g 2 = Some 1 \<and>
     getInfo g 0 = 1 \<and> getInfo g 1 = 2 \<and> getAdj g 1 = [] \<and>
     (\<forall>e\<in>set (getAdj g 0). getDest g e = 1 \<and> e < enext g)"

section \<open>Well-formed graphs\<close>

text \<open>
  The key index and the vertex sequence name the same vertices, each vertex is indexed
  under its own key, and keys are unique.
\<close>

definition index_inv :: "graph \<Rightarrow> bool" where
  "index_inv g \<longleftrightarrow>
     (\<forall>k v. vertexMap g k = Some v \<longleftrightarrow> v \<in> set (vertexSet g) \<and> getInfo g v = k) \<and>
     distinct (map (getInfo g) (vertexSet g))"

text \<open>
  Every edge of an \<^verbatim>\<open>adj\<close> list starts at the owner of the list, ends at a vertex of the
  graph and stands in the \<^verbatim>\<open>incoming\<close> list of that vertex; every entry of an
  \<^verbatim>\<open>incoming\<close> list ends at the owner of the list and stands in the \<^verbatim>\<open>adj\<close> list of
  its origin, a vertex of the graph.
\<close>

definition links_inv :: "graph \<Rightarrow> bool" where
  "links_inv g \<longleftrightarrow>
     (\<forall>v\<in>set (vertexSet g).
        (\<forall>e\<in>set (getAdj g v).
           getOrig g e = v \<and> getDest g e \<in> set (vertexSet g) \<and>
           e \<in> set (getIncoming g (getDest g e))) \<and>
        (\<forall>e\<in>set (getIncoming g v).
           getDest g e = v \<and> getOrig g e \<in> set (vertexSet g) \<and>
           e \<in> set (getAdj g (getOrig g e))))"

text \<open>Every object the graph names was allocated: its address lies below the allocator's.\<close>

definition alloc_inv :: "graph \<Rightarrow> bool" where
  "alloc_inv g \<longleftrightarrow>
     (\<forall>v\<in>set (vertexSet g).
        v < vnext g \<and>
        (\<forall>e\<in>set (getAdj g v). e < enext g) \<and>
        (\<forall>e\<in>set (getIncoming g v). e < enext g))"

definition wf_graph :: "graph \<Rightarrow> bool" where
  "wf_graph g \<longleftrightarrow> index_inv g \<and> links_inv g \<and> alloc_inv g"

text \<open>
  Two states of the memory hold the same graph: the vertex sequence, the index, every
  edge object and every field of every vertex object agree, but for the scratch fields
  \<^verbatim>\<open>visited\<close>, \<^verbatim>\<open>processing\<close> and \<^verbatim>\<open>indegree\<close>.
\<close>

definition same_structure :: "graph \<Rightarrow> graph \<Rightarrow> bool" where
  "same_structure g g' \<longleftrightarrow>
     vertexSet g' = vertexSet g \<and> vertexMap g' = vertexMap g \<and> emem g' = emem g \<and>
     vnext g' = vnext g \<and> enext g' = enext g \<and>
     (\<forall>v. vmem g' v = (vmem g v)\<lparr>visited := isVisited g' v, processing := isProcessing g' v,
                                   indegree := getIndegree g' v\<rparr>)"

text \<open>The directed edges of the graph, as a relation on its vertices.\<close>

definition edge_rel :: "graph \<Rightarrow> (vref \<times> vref) set" where
  "edge_rel g = {(u, getDest g e) | u e. u \<in> set (vertexSet g) \<and> e \<in> set (getAdj g u)}"

text \<open>
  Two states that differ at most in the \<^verbatim>\<open>adj\<close> and \<^verbatim>\<open>incoming\<close> vectors of their
  vertices: what the edge removals change.
\<close>

definition same_but_lists :: "graph \<Rightarrow> graph \<Rightarrow> bool" where
  "same_but_lists g g' \<longleftrightarrow>
     vertexSet g' = vertexSet g \<and> vertexMap g' = vertexMap g \<and> emem g' = emem g \<and>
     vnext g' = vnext g \<and> enext g' = enext g \<and>
     (\<forall>v. vmem g' v = (vmem g v)\<lparr>adj := getAdj g' v, incoming := getIncoming g' v\<rparr>)"

text \<open>The loop of \<^verbatim>\<open>Graph::removeVertex\<close> over the vertex sequence.\<close>

definition removeVertex_step :: "vref \<Rightarrow> vref \<Rightarrow> graph \<Rightarrow> graph" where
  "removeVertex_step v u h =
     (if u \<noteq> v then snd (Vertex_removeEdge u (getInfo h v) h) else removeOutgoingEdges u h)"

text \<open>
  The loop invariant of \<^verbatim>\<open>Graph::removeVertex\<close> on a well-formed graph \<open>g\<close>, with the
  vertices \<open>D\<close> already passed: their edges to \<open>v\<close> (all edges, for \<open>v\<close> itself) are gone
  from both sides.
\<close>

definition removing :: "graph \<Rightarrow> vref \<Rightarrow> vref set \<Rightarrow> graph \<Rightarrow> bool" where
  "removing g v D h \<longleftrightarrow>
     same_but_lists g h \<and>
     (\<forall>u. getAdj h u =
        (if u \<in> D then (if u = v then [] else filter (\<lambda>e. getDest g e \<noteq> v) (getAdj g u))
         else getAdj g u)) \<and>
     (\<forall>x\<in>set (vertexSet g). getIncoming h x =
        filter (\<lambda>e. \<not> (getOrig g e \<in> D \<and> (getOrig g e = v \<or> x = v))) (getIncoming g x))"

text \<open>
  The graphs a program can hold: a default-constructed graph in any memory, changed by
  the public operations and traversed by the public algorithms.
\<close>

inductive reachable :: "graph \<Rightarrow> bool" where
  init: "reachable (Graph vm em)"
| addVertex: "reachable g \<Longrightarrow> reachable (snd (addVertex k g))"
| removeVertex: "reachable g \<Longrightarrow> reachable (snd (removeVertex k g))"
| addEdge: "reachable g \<Longrightarrow> reachable (snd (addEdge s d w g))"
| addBidirectionalEdge: "reachable g \<Longrightarrow> reachable (snd (addBidirectionalEdge s d w g))"
| removeEdge: "reachable g \<Longrightarrow> reachable (snd (removeEdge s d g))"
| dfs: "reachable g \<Longrightarrow> dfs g = Some (res, g') \<Longrightarrow> reachable g'"
| dfs_from: "reachable g \<Longrightarrow> dfs_from s g = Some (res, g') \<Longrightarrow> reachable g'"
| bfs: "reachable g \<Longrightarrow> bfs s g = Some (res, g') \<Longrightarrow> reachable g'"
| isDAG: "reachable g \<Longrightarrow> isDAG g = Some (b, g') \<Longrightarrow> reachable g'"
| topsort: "reachable g \<Longrightarrow> topsort g = Some (res, g') \<Longrightarrow> reachable g'"

section \<open>What the traversals compute\<close>

text \<open>The destinations of the edges of a vertex, in \<^verbatim>\<open>adj\<close> order.\<close>

definition succs :: "graph \<Rightarrow> vref \<Rightarrow> vref list" where
  "succs g v = map (getDest g) (getAdj g v)"

text \<open>The vertices of the graph that a traversal has not marked.\<close>

definition unvisited :: "graph \<Rightarrow> vref set" where
  "unvisited g = {v \<in> set (vertexSet g). \<not> isVisited g v}"

text \<open>
  Depth-first pre-order, as the specification words it: \<open>preorder succ S ws r\<close> says
  that \<open>r\<close> is the concatenation of the pre-order traversals rooted at the vertices
  \<open>ws\<close>, taken in order, where a vertex of \<open>S\<close> or one met before is skipped. The
  traversal of a root is the root followed by the traversals of its successors.
\<close>

inductive preorder :: "(vref \<Rightarrow> vref list) \<Rightarrow> vref set \<Rightarrow> vref list \<Rightarrow> vref list \<Rightarrow> bool"
  for succ :: "vref \<Rightarrow> vref list" where
  nil: "preorder succ S [] []"
| skip: "w \<in> S \<Longrightarrow> preorder succ S ws r \<Longrightarrow> preorder succ S (w # ws) r"
| visit: "w \<notin> S \<Longrightarrow> preorder succ (insert w S) (succ w) r1 \<Longrightarrow>
    preorder succ (insert w S \<union> set r1) ws r2 \<Longrightarrow> preorder succ S (w # ws) (w # r1 @ r2)"

text \<open>
  What a run of \<^verbatim>\<open>dfsVisit\<close> or of its loop leaves: the same graph, the keys of the
  pre-order \<open>new\<close> of the roots \<open>ws\<close> appended to the result, and exactly the vertices of
  \<open>new\<close> newly marked.
\<close>

definition dfs_post :: "graph \<Rightarrow> int list \<Rightarrow> vref list \<Rightarrow> vref list \<Rightarrow> int list \<times> graph \<Rightarrow> bool" where
  "dfs_post g res ws new y \<longleftrightarrow>
     (case y of (res', g') \<Rightarrow>
        same_structure g g' \<and> res' = res @ map (getInfo g) new \<and>
        preorder (succs g) {u. isVisited g u} ws new \<and>
        {u. isVisited g' u} = {u. isVisited g u} \<union> set new)"

text \<open>
  The three colours of \<^verbatim>\<open>isDAG\<close>: a vertex is unvisited, grey (\<^verbatim>\<open>processing\<close>: its call
  of \<^verbatim>\<open>dfsIsDAG\<close> is running) or black (visited and no longer \<^verbatim>\<open>processing\<close>: its call
  has returned).
\<close>

definition gray :: "graph \<Rightarrow> vref set" where
  "gray g = {u \<in> set (vertexSet g). isProcessing g u}"

definition black :: "graph \<Rightarrow> vref set" where
  "black g = {u \<in> set (vertexSet g). isVisited g u \<and> \<not> isProcessing g u}"

text \<open>
  The invariant of \<^verbatim>\<open>isDAG\<close>: grey vertices are visited, no edge leaves the black
  vertices, and no black vertex lies on a cycle.
\<close>

definition dag_inv :: "graph \<Rightarrow> bool" where
  "dag_inv g \<longleftrightarrow>
     links_inv g \<and>
     (\<forall>u\<in>set (vertexSet g). isProcessing g u \<longrightarrow> isVisited g u) \<and>
     (\<forall>u\<in>black g. \<forall>w. (u, w) \<in> edge_rel g \<longrightarrow> w \<in> black g) \<and>
     (\<forall>u\<in>black g. (u, u) \<notin> (edge_rel g)\<^sup>+)"

text \<open>
  What a failed run of \<^verbatim>\<open>dfsIsDAG\<close> leaves: the graph has a cycle, and the state still
  shows the edge that ended the search, from a grey vertex to a grey vertex.
\<close>

definition back_edge :: "graph \<Rightarrow> bool" where
  "back_edge g \<longleftrightarrow>
     (\<exists>u\<in>set (vertexSet g). \<exists>e\<in>set (getAdj g u).
        isProcessing g u \<and> isProcessing g (getDest g e))"

definition dag_failed :: "graph \<Rightarrow> graph \<Rightarrow> bool" where
  "dag_failed g g' \<longleftrightarrow>
     same_structure g g' \<and> (\<exists>x. (x, x) \<in> (edge_rel g)\<^sup>+) \<and> back_edge g'"

text \<open>What a successful run of \<^verbatim>\<open>dfsIsDAG\<close> on \<open>v\<close> leaves.\<close>

definition dag_done :: "graph \<Rightarrow> vref \<Rightarrow> graph \<Rightarrow> bool" where
  "dag_done g v g' \<longleftrightarrow>
     same_structure g g' \<and> dag_inv g' \<and> gray g' = gray g - {v} \<and> v \<in> black g' \<and>
     black g \<subseteq> black g' \<and> unvisited g' \<subseteq> unvisited g"

text \<open>
  Breadth-first order, as the specification words it: a level-order visit through a
  FIFO queue. \<open>level_order succ S q r\<close> says that \<open>r\<close> is the order in which the
  vertices leave the queue \<open>q\<close>, where \<open>S\<close> holds the vertices that have entered the
  queue so far: the vertex at the front leaves, and its successors that have not
  entered yet enter at the back, in the order of \<open>succ\<close>, each once (\<open>fresh\<close>).
\<close>

fun fresh :: "vref set \<Rightarrow> vref list \<Rightarrow> vref list" where
  "fresh S [] = []"
| "fresh S (w # ws) = (if w \<in> S then fresh S ws else w # fresh (insert w S) ws)"

inductive level_order :: "(vref \<Rightarrow> vref list) \<Rightarrow> vref set \<Rightarrow> vref list \<Rightarrow> vref list \<Rightarrow> bool"
  for succ :: "vref \<Rightarrow> vref list" where
  empty: "level_order succ S [] []"
| pop: "level_order succ (S \<union> set (fresh S (succ v))) (q @ fresh S (succ v)) r \<Longrightarrow>
    level_order succ S (v # q) (v # r)"

text \<open>The hop distance from \<open>s\<close>: the length of a shortest path of edges from \<open>s\<close>.\<close>

definition hops :: "(vref \<times> vref) set \<Rightarrow> vref \<Rightarrow> vref \<Rightarrow> nat" where
  "hops E s v = (LEAST n. (s, v) \<in> E ^^ n)"

text \<open>
  The state of a breadth-first search from \<open>s\<close> when \<open>v\<close> has left the queue and its
  edges are being scanned: \<open>out\<close> left before, \<open>q\<close> is the queue. The vertices met so
  far are distinct, reachable and in the order of their distances; none is more than
  one hop beyond \<open>v\<close>, and none at the distance of \<open>v\<close> or nearer is missing.
\<close>

definition bfs_mid :: "(vref \<times> vref) set \<Rightarrow> vref \<Rightarrow> vref list \<Rightarrow> vref \<Rightarrow> vref list \<Rightarrow> bool" where
  "bfs_mid E s out v q \<longleftrightarrow>
     distinct (out @ v # q) \<and> s \<in> set (out @ v # q) \<and>
     (\<forall>u\<in>set (out @ v # q). (s, u) \<in> E\<^sup>*) \<and>
     sorted_wrt (\<lambda>a b. hops E s a \<le> hops E s b) (out @ v # q) \<and>
     (\<forall>x\<in>set (out @ v # q). hops E s x \<le> hops E s v + 1) \<and>
     (\<forall>x. (s, x) \<in> E\<^sup>* \<and> hops E s x \<le> hops E s v \<longrightarrow> x \<in> set (out @ v # q))"

text \<open>
  The state of the search between two vertices leaving the queue: as above for the
  vertex at the front of the queue, if there is one, and every successor of a vertex
  that has left has been met.
\<close>

definition bfs_inv :: "(vref \<times> vref) set \<Rightarrow> vref \<Rightarrow> vref list \<Rightarrow> vref list \<Rightarrow> bool" where
  "bfs_inv E s out q \<longleftrightarrow>
     (\<forall>u\<in>set out. \<forall>w. (u, w) \<in> E \<longrightarrow> w \<in> set (out @ q)) \<and>
     (case q of
        [] \<Rightarrow> distinct out \<and> s \<in> set out \<and> (\<forall>u\<in>set out. (s, u) \<in> E\<^sup>*) \<and>
               sorted_wrt (\<lambda>a b. hops E s a \<le> hops E s b) out
      | v # q' \<Rightarrow> bfs_mid E s out v q')"

text \<open>
  Kahn's algorithm. \<open>edges_into g w es\<close> counts the edges of \<open>es\<close> that end at \<open>w\<close>;
  \<open>edges_left g out\<close> are the edges that leave the vertices not in \<open>out\<close>. The
  in-degree counter is an \<^verbatim>\<open>unsigned int\<close>: it holds the in-degree of a vertex only
  when that is below \<open>2\<^sup>3\<^sup>2\<close>.
\<close>

definition edges_into :: "graph \<Rightarrow> vref \<Rightarrow> eref list \<Rightarrow> nat" where
  "edges_into g w es = length (filter (\<lambda>e. getDest g e = w) es)"

definition edges_left :: "graph \<Rightarrow> vref list \<Rightarrow> eref list" where
  "edges_left g out = concat (map (getAdj g) (filter (\<lambda>u. u \<notin> set out) (vertexSet g)))"

definition indegree_fits :: "graph \<Rightarrow> bool" where
  "indegree_fits g \<longleftrightarrow>
     (\<forall>w\<in>set (vertexSet g). edges_into g w (edges_left g []) < 2 ^ 32)"

text \<open>
  A sequence is in topological order when every edge into one of its elements comes
  from an earlier element; \<open>precedes xs a b\<close> when \<open>a\<close> stands before \<open>b\<close> in \<open>xs\<close>.
\<close>

definition topo_sorted :: "(vref \<times> vref) set \<Rightarrow> vref list \<Rightarrow> bool" where
  "topo_sorted E xs \<longleftrightarrow> (\<forall>i<length xs. \<forall>u. (u, xs ! i) \<in> E \<longrightarrow> u \<in> set (take i xs))"

definition precedes :: "'a list \<Rightarrow> 'a \<Rightarrow> 'a \<Rightarrow> bool" where
  "precedes xs a b \<longleftrightarrow> (\<exists>i j. i < j \<and> j < length xs \<and> xs ! i = a \<and> xs ! j = b)"

text \<open>
  The state of \<^verbatim>\<open>topsort\<close> on the graph \<open>g0\<close>: the vertices \<open>out\<close> have left the queue,
  the edges \<open>es\<close> of the last of them are still to be scanned, and \<open>L\<close> lists the
  vertices that have entered the queue so far. The counter of a vertex is the number
  of its incoming edges not scanned yet, which is below \<open>2\<^sup>3\<^sup>2\<close>, and the vertices that
  have entered the queue are those whose number is zero.
\<close>

definition kahn_state :: "graph \<Rightarrow> vref list \<Rightarrow> eref list \<Rightarrow> vref list \<Rightarrow> graph \<Rightarrow> bool" where
  "kahn_state g0 out es L g \<longleftrightarrow>
     same_structure g0 g \<and> distinct L \<and>
     (\<forall>w\<in>set (vertexSet g0).
        edges_into g0 w (edges_left g0 out @ es) < 2 ^ 32 \<and>
        getIndegree g w = of_nat (edges_into g0 w (edges_left g0 out @ es))) \<and>
     set L = {w \<in> set (vertexSet g0). edges_into g0 w (edges_left g0 out @ es) = 0}"

section \<open>Evaluating the example graphs\<close>

lemmas build_defs = empty_graph_def Graph_def addVertex_def addEdge_def findVertex_def
  Vertex_addEdge_def upd_vertex_def Vertex_def Edge_def Let_def blank_vertex_def blank_edge_def

section \<open>Edge-weight lookup\<close>

lemma getEdgeWeight_loop_find:
  "getEdgeWeight_loop g d es =
     (case find (\<lambda>e. getInfo g (getDest g e) = d) es of
        None \<Rightarrow> DBL_MAX | Some e \<Rightarrow> getWeight g e)"
  by (induction es) auto

text \<open>
  C5 (as amended). \<open>getEdgeWeight s d\<close> is the weight of the first edge of \<open>s.adj\<close>, in
  insertion order, whose destination has key \<open>d\<close>; it is the largest double when \<open>s\<close>
  is absent or has no such edge. So the result differs from the largest double exactly
  when such an edge exists and the weight of the first one is not the largest double
  itself. The function is total: it never throws.
\<close>

theorem getEdgeWeight_first_edge:
  "getEdgeWeight s d g =
     (case findVertex s g of
        None \<Rightarrow> DBL_MAX
      | Some v \<Rightarrow>
          (case find (\<lambda>e. getInfo g (getDest g e) = d) (getAdj g v) of
             None \<Rightarrow> DBL_MAX
           | Some e \<Rightarrow> getWeight g e)) \<and>
   (getEdgeWeight s d g \<noteq> DBL_MAX \<longleftrightarrow>
      (\<exists>v e. findVertex s g = Some v \<and>
         find (\<lambda>e. getInfo g (getDest g e) = d) (getAdj g v) = Some e \<and>
         getWeight g e \<noteq> DBL_MAX))"
  by (auto simp: getEdgeWeight_def getEdgeWeight_loop_find split: option.splits)

theorem getEdgeWeight_first_edge_witness:
  "getEdgeWeight 1 2 graph_S1 = 5 \<and> getEdgeWeight 1 3 graph_S1 = DBL_MAX \<and>
   getEdgeWeight 7 1 graph_S1 = DBL_MAX"
  using getEdgeWeight_first_edge [of 1 2 graph_S1] getEdgeWeight_first_edge [of 1 3 graph_S1]
    getEdgeWeight_first_edge [of 7 1 graph_S1]
  by (simp add: graph_S1_def build_defs)

text \<open>
  C5 as stated fails: in \<open>graph_max\<close> the vertex with key 1 has an edge to the vertex
  with key 2, and the lookup still returns the largest double, the value that stands
  for "no such edge".
\<close>

theorem getEdgeWeight_sentinel_counterexample:
  "findVertex 1 graph_max = Some 0 \<and> getAdj graph_max 0 = [0] \<and>
   getInfo graph_max (getDest graph_max 0) = 2 \<and>
   getEdgeWeight 1 2 graph_max = DBL_MAX"
  by (simp add: graph_max_def build_defs getEdgeWeight_def)

section \<open>The traversals write scratch fields only\<close>

lemma same_structure_refl [simp]: "same_structure g g"
  by (simp add: same_structure_def)

lemma same_structure_trans:
  "same_structure g g' \<Longrightarrow> same_structure g' g'' \<Longrightarrow> same_structure g g''"
  unfolding same_structure_def
  apply (intro conjI allI)
       apply simp_all
  subgoal for v
    apply (erule conjE)+
    apply (drule_tac x=v in spec)+
    apply (cases "vmem g v"; cases "vmem g' v"; cases "vmem g'' v")
    apply simp
    done
  done

lemma same_structure_upd:
  "(\<And>x. f x = x\<lparr>visited := visited (f x), processing := processing (f x), indegree := indegree (f x)\<rparr>) \<Longrightarrow>
   same_structure g (upd_vertex v f g)"
  by (auto simp: same_structure_def upd_vertex_def)

lemma same_structure_setVisited [simp]: "same_structure g (setVisited v b g)"
  unfolding setVisited_def by (rule same_structure_upd) simp

lemma same_structure_setProcesssing [simp]: "same_structure g (setProcesssing v b g)"
  unfolding setProcesssing_def by (rule same_structure_upd) simp

lemma same_structure_setIndegree [simp]: "same_structure g (setIndegree v n g)"
  unfolding setIndegree_def by (rule same_structure_upd) simp

lemma same_structure_fold:
  "(\<And>v h. same_structure h (f v h)) \<Longrightarrow> same_structure g (fold f vs g)"
proof (induction vs arbitrary: g)
  case Nil
  show ?case by simp
next
  case (Cons v vs)
  have "same_structure g (f v g)" by (rule Cons.prems)
  moreover have "same_structure (f v g) (fold f vs (f v g))"
    by (rule Cons.IH) (rule Cons.prems)
  ultimately show ?case by (auto intro: same_structure_trans)
qed

lemma same_structure_resetVisited [simp]: "same_structure g (resetVisited g)"
  unfolding resetVisited_def by (rule same_structure_fold) simp

lemma dfsVisit_rec_frame_aux:
  assumes run: "dfsVisit_rec c0 g0 res0 = Some y0"
  shows "same_structure g0 (snd y0)"
proof (rule dfsVisit_rec.raw_induct [where P = "\<lambda>c g res y. same_structure g (snd y)", OF _ run],
    goal_cases)
  case (1 dfsVisit_rec c g res y)
  obtain res' g' where y: "y = (res', g')" by force
  have IH: "\<And>c g res r h. dfsVisit_rec c g res = Some (r, h) \<Longrightarrow> same_structure g h"
    using 1(1) by fastforce
  note body = 1(2) [unfolded y]
  have "same_structure g g'"
  proof (cases c)
    case (Inl v)
    with body have "dfsVisit_rec (Inr (getAdj g v)) (setVisited v True g) (res @ [getInfo g v]) = Some (res', g')"
      by simp
    then have "same_structure (setVisited v True g) g'" by (rule IH)
    then show ?thesis by (rule same_structure_trans [OF same_structure_setVisited])
  next
    case (Inr es)
    show ?thesis
    proof (cases es)
      case Nil
      with Inr body show ?thesis by simp
    next
      case (Cons e es')
      show ?thesis
      proof (cases "isVisited g (getDest g e)")
        case True
        with Inr Cons body have "dfsVisit_rec (Inr es') g res = Some (res', g')" by simp
        then show ?thesis by (rule IH)
      next
        case False
        with Inr Cons body obtain r1 g1 where
          a: "dfsVisit_rec (Inl (getDest g e)) g res = Some (r1, g1)" and
          b: "dfsVisit_rec (Inr es') g1 r1 = Some (res', g')"
          by (auto simp: Let_def split: Option.bind_splits)
        from a have "same_structure g g1" by (rule IH)
        moreover from b have "same_structure g1 g'" by (rule IH)
        ultimately show ?thesis by (rule same_structure_trans)
      qed
    qed
  qed
  then show ?case by (simp add: y)
qed

lemma dfsVisit_rec_frame:
  "dfsVisit_rec c g res = Some (res', g') \<Longrightarrow> same_structure g g'"
  using dfsVisit_rec_frame_aux [of c g res "(res', g')"] by simp

lemma dfs_loop_frame:
  "dfs_loop vs g res = Some (res', g') \<Longrightarrow> same_structure g g'"
proof (induction vs arbitrary: g res)
  case Nil
  then show ?case by simp
next
  case (Cons v vs)
  show ?case
  proof (cases "isVisited g v")
    case True
    with Cons.prems have "dfs_loop vs g res = Some (res', g')" by simp
    then show ?thesis by (rule Cons.IH)
  next
    case False
    with Cons.prems obtain r1 g1 where
      a: "dfsVisit v g res = Some (r1, g1)" and b: "dfs_loop vs g1 r1 = Some (res', g')"
      by (auto split: Option.bind_splits)
    from a have "same_structure g g1" unfolding dfsVisit_def by (rule dfsVisit_rec_frame)
    moreover from b have "same_structure g1 g'" by (rule Cons.IH)
    ultimately show ?thesis by (rule same_structure_trans)
  qed
qed

lemma dfs_frame: "dfs g = Some (res, g') \<Longrightarrow> same_structure g g'"
  unfolding dfs_def Let_def
  by (rule same_structure_trans [OF same_structure_resetVisited]) (rule dfs_loop_frame)

lemma dfs_from_frame: "dfs_from s g = Some (res, g') \<Longrightarrow> same_structure g g'"
  unfolding dfs_from_def dfsVisit_def
  by (auto split: option.splits
      intro: same_structure_trans [OF same_structure_resetVisited] dfsVisit_rec_frame)

lemma bfs_adj_frame: "same_structure g (snd (bfs_adj es q g))"
proof (induction es arbitrary: q g)
  case Nil
  show ?case by simp
next
  case (Cons e es)
  show ?case
    using Cons.IH [where q = "q @ [getDest g e]" and g = "setVisited (getDest g e) True g"]
      Cons.IH [where q = q and g = g]
    by (auto simp: Let_def intro: same_structure_trans [OF same_structure_setVisited])
qed

lemma bfs_loop_frame_aux:
  assumes run: "bfs_loop q0 g0 res0 = Some y0"
  shows "same_structure g0 (snd y0)"
proof (rule bfs_loop.raw_induct [where P = "\<lambda>q g res y. same_structure g (snd y)", OF _ run],
    goal_cases)
  case (1 bfs_loop q g res y)
  have IH: "\<And>q g res y. bfs_loop q g res = Some y \<Longrightarrow> same_structure g (snd y)"
    by (rule 1(1))
  show ?case
  proof (cases q)
    case Nil
    with 1(2) show ?thesis by auto
  next
    case (Cons v q')
    obtain q'' g1 where adj: "bfs_adj (getAdj g v) q' g = (q'', g1)" by force
    with Cons 1(2) have "bfs_loop q'' g1 (res @ [getInfo g v]) = Some y" by simp
    then have "same_structure g1 (snd y)" by (rule IH)
    moreover have "same_structure g g1" using bfs_adj_frame [of g "getAdj g v" q'] adj by simp
    ultimately show ?thesis by (blast intro: same_structure_trans)
  qed
qed

lemma bfs_loop_frame:
  "bfs_loop q g res = Some (res', g') \<Longrightarrow> same_structure g g'"
  using bfs_loop_frame_aux [of q g res "(res', g')"] by simp

lemma bfs_frame: "bfs s g = Some (res, g') \<Longrightarrow> same_structure g g'"
  unfolding bfs_def
  by (auto split: option.splits
      intro: same_structure_trans [OF same_structure_resetVisited]
             same_structure_trans [OF same_structure_setVisited] bfs_loop_frame)

lemma dfsIsDAG_rec_frame_aux:
  assumes run: "dfsIsDAG_rec c0 g0 = Some y0"
  shows "same_structure g0 (snd y0)"
proof (rule dfsIsDAG_rec.raw_induct [where P = "\<lambda>c g y. same_structure g (snd y)", OF _ run],
    goal_cases)
  case (1 dfsIsDAG_rec c g y)
  obtain b g' where y: "y = (b, g')" by force
  have IH: "\<And>c g r h. dfsIsDAG_rec c g = Some (r, h) \<Longrightarrow> same_structure g h"
    using 1(1) by fastforce
  note body = 1(2) [unfolded y]
  have "same_structure g g'"
  proof (cases c)
    case (Inl v)
    with body have "dfsIsDAG_rec (Inr (v, getAdj g v)) (setProcesssing v True (setVisited v True g)) = Some (b, g')"
      by simp
    then have "same_structure (setProcesssing v True (setVisited v True g)) g'" by (rule IH)
    then show ?thesis
      by (blast intro: same_structure_trans same_structure_setVisited same_structure_setProcesssing)
  next
    case (Inr p)
    obtain v es where p: "p = (v, es)" by force
    show ?thesis
    proof (cases es)
      case Nil
      with Inr p body show ?thesis by auto
    next
      case (Cons e es')
      consider (proc) "isProcessing g (getDest g e)"
        | (seen) "\<not> isProcessing g (getDest g e)" "isVisited g (getDest g e)"
        | (new) "\<not> isProcessing g (getDest g e)" "\<not> isVisited g (getDest g e)"
        by blast
      then show ?thesis
      proof cases
        case proc
        with Inr p Cons body show ?thesis by simp
      next
        case seen
        with Inr p Cons body have "dfsIsDAG_rec (Inr (v, es')) g = Some (b, g')" by simp
        then show ?thesis by (rule IH)
      next
        case new
        with Inr p Cons body obtain b1 g1 where
          a: "dfsIsDAG_rec (Inl (getDest g e)) g = Some (b1, g1)" and
          c: "if \<not> b1 then (b, g') = (False, g1) else dfsIsDAG_rec (Inr (v, es')) g1 = Some (b, g')"
          by (auto simp: Let_def split: Option.bind_splits if_splits)
        from a have g1: "same_structure g g1" by (rule IH)
        show ?thesis
        proof (cases b1)
          case True
          with c have "dfsIsDAG_rec (Inr (v, es')) g1 = Some (b, g')" by simp
          then have "same_structure g1 g'" by (rule IH)
          with g1 show ?thesis by (rule same_structure_trans)
        next
          case False
          with c g1 show ?thesis by simp
        qed
      qed
    qed
  qed
  then show ?case by (simp add: y)
qed

lemma dfsIsDAG_rec_frame:
  "dfsIsDAG_rec c g = Some (b, g') \<Longrightarrow> same_structure g g'"
  using dfsIsDAG_rec_frame_aux [of c g "(b, g')"] by simp

lemma isDAG_loop_frame:
  "isDAG_loop vs g = Some (b, g') \<Longrightarrow> same_structure g g'"
proof (induction vs arbitrary: g)
  case Nil
  then show ?case by simp
next
  case (Cons v vs)
  show ?case
  proof (cases "isVisited g v")
    case True
    with Cons.prems have "isDAG_loop vs g = Some (b, g')" by simp
    then show ?thesis by (rule Cons.IH)
  next
    case False
    with Cons.prems obtain b1 g1 where
      a: "dfsIsDAG v g = Some (b1, g1)" and
      c: "if \<not> b1 then (b, g') = (False, g1) else isDAG_loop vs g1 = Some (b, g')"
      by (auto split: Option.bind_splits if_splits)
    from a have g1: "same_structure g g1" unfolding dfsIsDAG_def by (rule dfsIsDAG_rec_frame)
    show ?thesis
    proof (cases b1)
      case True
      with c have "isDAG_loop vs g1 = Some (b, g')" by simp
      then have "same_structure g1 g'" by (rule Cons.IH)
      with g1 show ?thesis by (rule same_structure_trans)
    next
      case False
      with c g1 show ?thesis by simp
    qed
  qed
qed

lemma same_structure_resetColours:
  "same_structure g (fold (\<lambda>v h. setProcesssing v False (setVisited v False h)) vs g)"
  by (rule same_structure_fold)
    (blast intro: same_structure_trans same_structure_setVisited same_structure_setProcesssing)

lemma isDAG_frame: "isDAG g = Some (b, g') \<Longrightarrow> same_structure g g'"
  unfolding isDAG_def Let_def
  by (rule same_structure_trans [OF same_structure_resetColours]) (rule isDAG_loop_frame)

lemma same_structure_count_indegrees [simp]: "same_structure g (count_indegrees g)"
  unfolding count_indegrees_def
  by (rule same_structure_fold) (rule same_structure_fold, simp)

lemma topsort_adj_frame: "same_structure g (snd (topsort_adj es q g))"
proof (induction es arbitrary: q g)
  case Nil
  show ?case by simp
next
  case (Cons e es)
  let ?g' = "setIndegree (getDest g e) (getIndegree g (getDest g e) - 1) g"
  show ?case
    using Cons.IH [where q = "q @ [getDest g e]" and g = ?g'] Cons.IH [where q = q and g = ?g']
    by (auto simp: Let_def intro: same_structure_trans [OF same_structure_setIndegree])
qed

lemma topsort_loop_frame_aux:
  assumes run: "topsort_loop q0 g0 res0 = Some y0"
  shows "same_structure g0 (snd y0)"
proof (rule topsort_loop.raw_induct [where P = "\<lambda>q g res y. same_structure g (snd y)", OF _ run],
    goal_cases)
  case (1 topsort_loop q g res y)
  have IH: "\<And>q g res y. topsort_loop q g res = Some y \<Longrightarrow> same_structure g (snd y)"
    by (rule 1(1))
  show ?case
  proof (cases q)
    case Nil
    with 1(2) show ?thesis by auto
  next
    case (Cons v q')
    obtain q'' g1 where adj: "topsort_adj (getAdj g v) q' g = (q'', g1)" by force
    with Cons 1(2) have "topsort_loop q'' g1 (res @ [getInfo g v]) = Some y" by simp
    then have "same_structure g1 (snd y)" by (rule IH)
    moreover have "same_structure g g1"
      using topsort_adj_frame [of g "getAdj g v" q'] adj by simp
    ultimately show ?thesis by (blast intro: same_structure_trans)
  qed
qed

lemma topsort_loop_frame:
  "topsort_loop q g res = Some (res', g') \<Longrightarrow> same_structure g g'"
  using topsort_loop_frame_aux [of q g res "(res', g')"] by simp

lemma topsort_frame: "topsort g = Some (res, g') \<Longrightarrow> same_structure g g'"
proof -
  assume t: "topsort g = Some (res, g')"
  let ?g1 = "fold (\<lambda>v. setIndegree v 0) (vertexSet g) g"
  let ?g2 = "count_indegrees ?g1"
  have 1: "same_structure g ?g1" by (rule same_structure_fold) simp
  have 2: "same_structure ?g1 ?g2" by simp
  from t obtain r where "topsort_loop (filter (\<lambda>v. getIndegree ?g2 v = 0) (vertexSet ?g2)) ?g2 [] = Some (r, g')"
    by (auto simp: topsort_def Let_def split: Option.bind_splits if_splits)
  then have "same_structure ?g2 g'" by (rule topsort_loop_frame)
  with 1 2 show ?thesis by (blast intro: same_structure_trans)
qed

section \<open>Reading the store after a write\<close>

lemma upd_vertex_simps [simp]:
  "vertexSet (upd_vertex v f g) = vertexSet g"
  "vertexMap (upd_vertex v f g) = vertexMap g"
  "emem (upd_vertex v f g) = emem g"
  "vnext (upd_vertex v f g) = vnext g"
  "enext (upd_vertex v f g) = enext g"
  by (simp_all add: upd_vertex_def)

lemma vmem_upd_vertex:
  "vmem (upd_vertex v f g) u = (if u = v then f (vmem g v) else vmem g u)"
  by (simp add: upd_vertex_def)

lemma upd_edge_simps [simp]:
  "vertexSet (upd_edge e f g) = vertexSet g"
  "vertexMap (upd_edge e f g) = vertexMap g"
  "vmem (upd_edge e f g) = vmem g"
  "vnext (upd_edge e f g) = vnext g"
  "enext (upd_edge e f g) = enext g"
  by (simp_all add: upd_edge_def)

lemma emem_upd_edge:
  "emem (upd_edge e f g) i = (if i = e then f (emem g e) else emem g i)"
  by (simp add: upd_edge_def)

lemma setVisited_simps [simp]:
  "vertexSet (setVisited v b g) = vertexSet g"
  "vertexMap (setVisited v b g) = vertexMap g"
  "emem (setVisited v b g) = emem g"
  "vnext (setVisited v b g) = vnext g"
  "enext (setVisited v b g) = enext g"
  "info (vmem (setVisited v b g) u) = info (vmem g u)"
  "adj (vmem (setVisited v b g) u) = adj (vmem g u)"
  "visited (vmem (setVisited v b g) u) = (if u = v then b else visited (vmem g u))"
  "processing (vmem (setVisited v b g) u) = processing (vmem g u)"
  "indegree (vmem (setVisited v b g) u) = indegree (vmem g u)"
  "dist_v (vmem (setVisited v b g) u) = dist_v (vmem g u)"
  "path (vmem (setVisited v b g) u) = path (vmem g u)"
  "incoming (vmem (setVisited v b g) u) = incoming (vmem g u)"
  "queueIndex (vmem (setVisited v b g) u) = queueIndex (vmem g u)"
  by (simp_all add: setVisited_def vmem_upd_vertex)

lemma setProcesssing_simps [simp]:
  "vertexSet (setProcesssing v b g) = vertexSet g"
  "vertexMap (setProcesssing v b g) = vertexMap g"
  "emem (setProcesssing v b g) = emem g"
  "vnext (setProcesssing v b g) = vnext g"
  "enext (setProcesssing v b g) = enext g"
  "info (vmem (setProcesssing v b g) u) = info (vmem g u)"
  "adj (vmem (setProcesssing v b g) u) = adj (vmem g u)"
  "visited (vmem (setProcesssing v b g) u) = visited (vmem g u)"
  "processing (vmem (setProcesssing v b g) u) = (if u = v then b else processing (vmem g u))"
  "indegree (vmem (setProcesssing v b g) u) = indegree (vmem g u)"
  "dist_v (vmem (setProcesssing v b g) u) = dist_v (vmem g u)"
  "path (vmem (setProcesssing v b g) u) = path (vmem g u)"
  "incoming (vmem (setProcesssing v b g) u) = incoming (vmem g u)"
  "queueIndex (vmem (setProcesssing v b g) u) = queueIndex (vmem g u)"
  by (simp_all add: setProcesssing_def vmem_upd_vertex)

lemma setIndegree_simps [simp]:
  "vertexSet (setIndegree v n g) = vertexSet g"
  "vertexMap (setIndegree v n g) = vertexMap g"
  "emem (setIndegree v n g) = emem g"
  "vnext (setIndegree v n g) = vnext g"
  "enext (setIndegree v n g) = enext g"
  "info (vmem (setIndegree v n g) u) = info (vmem g u)"
  "adj (vmem (setIndegree v n g) u) = adj (vmem g u)"
  "visited (vmem (setIndegree v n g) u) = visited (vmem g u)"
  "processing (vmem (setIndegree v n g) u) = processing (vmem g u)"
  "indegree (vmem (setIndegree v n g) u) = (if u = v then n else indegree (vmem g u))"
  "dist_v (vmem (setIndegree v n g) u) = dist_v (vmem g u)"
  "path (vmem (setIndegree v n g) u) = path (vmem g u)"
  "incoming (vmem (setIndegree v n g) u) = incoming (vmem g u)"
  "queueIndex (vmem (setIndegree v n g) u) = queueIndex (vmem g u)"
  by (simp_all add: setIndegree_def vmem_upd_vertex)

lemma same_structure_fields:
  assumes "same_structure g g'"
  shows "vertexSet g' = vertexSet g" "vertexMap g' = vertexMap g" "emem g' = emem g"
    "vnext g' = vnext g" "enext g' = enext g"
    "getInfo g' v = getInfo g v" "getAdj g' v = getAdj g v"
    "getIncoming g' v = getIncoming g v"
    "dist_v (vmem g' v) = dist_v (vmem g v)" "path (vmem g' v) = path (vmem g v)"
    "queueIndex (vmem g' v) = queueIndex (vmem g v)"
proof -
  from assms have v: "vmem g' v = (vmem g v)\<lparr>visited := isVisited g' v,
      processing := isProcessing g' v, indegree := getIndegree g' v\<rparr>"
    by (simp add: same_structure_def)
  show "getInfo g' v = getInfo g v" by (subst v) simp
  show "getAdj g' v = getAdj g v" by (subst v) simp
  show "getIncoming g' v = getIncoming g v" by (subst v) simp
  show "dist_v (vmem g' v) = dist_v (vmem g v)" by (subst v) simp
  show "path (vmem g' v) = path (vmem g v)" by (subst v) simp
  show "queueIndex (vmem g' v) = queueIndex (vmem g v)" by (subst v) simp
qed (use assms in \<open>simp_all add: same_structure_def\<close>)

lemma same_structure_sym: "same_structure g g' \<Longrightarrow> same_structure g' g"
  unfolding same_structure_def
  apply (intro conjI allI)
       apply simp_all
  subgoal for v
    apply (erule conjE)+
    apply (drule_tac x=v in spec)
    apply (cases "vmem g v"; cases "vmem g' v")
    apply simp
    done
  done

lemma same_structure_edge_rel: "same_structure g g' \<Longrightarrow> edge_rel g' = edge_rel g"
  by (simp add: edge_rel_def same_structure_fields)

lemma same_structure_index_inv: "same_structure g g' \<Longrightarrow> index_inv g' = index_inv g"
  by (simp add: index_inv_def same_structure_fields cong: map_cong)

lemma same_structure_links_inv: "same_structure g g' \<Longrightarrow> links_inv g' = links_inv g"
  by (simp add: links_inv_def same_structure_fields)

lemma same_structure_alloc_inv: "same_structure g g' \<Longrightarrow> alloc_inv g' = alloc_inv g"
  by (simp add: alloc_inv_def same_structure_fields)

lemma same_structure_wf_graph: "same_structure g g' \<Longrightarrow> wf_graph g' = wf_graph g"
  by (simp add: wf_graph_def same_structure_index_inv same_structure_links_inv
      same_structure_alloc_inv)

section \<open>Adding vertices and edges keeps the graph well formed\<close>

lemma Vertex_addEdge_simps [simp]:
  "fst (Vertex_addEdge this d w g) = enext g"
  "vertexSet (snd (Vertex_addEdge this d w g)) = vertexSet g"
  "vertexMap (snd (Vertex_addEdge this d w g)) = vertexMap g"
  "vnext (snd (Vertex_addEdge this d w g)) = vnext g"
  "enext (snd (Vertex_addEdge this d w g)) = Suc (enext g)"
  "emem (snd (Vertex_addEdge this d w g)) i =
     (if i = enext g then Edge this d w (emem g i) else emem g i)"
  "info (vmem (snd (Vertex_addEdge this d w g)) u) = info (vmem g u)"
  "visited (vmem (snd (Vertex_addEdge this d w g)) u) = visited (vmem g u)"
  "processing (vmem (snd (Vertex_addEdge this d w g)) u) = processing (vmem g u)"
  "indegree (vmem (snd (Vertex_addEdge this d w g)) u) = indegree (vmem g u)"
  "dist_v (vmem (snd (Vertex_addEdge this d w g)) u) = dist_v (vmem g u)"
  "path (vmem (snd (Vertex_addEdge this d w g)) u) = path (vmem g u)"
  "queueIndex (vmem (snd (Vertex_addEdge this d w g)) u) = queueIndex (vmem g u)"
  "adj (vmem (snd (Vertex_addEdge this d w g)) u) =
     (if u = this then adj (vmem g u) @ [enext g] else adj (vmem g u))"
  "incoming (vmem (snd (Vertex_addEdge this d w g)) u) =
     (if u = d then incoming (vmem g u) @ [enext g] else incoming (vmem g u))"
  by (simp_all add: Vertex_addEdge_def Let_def vmem_upd_vertex)

lemma Edge_simps [simp]:
  "dest (Edge o_v d_v w old) = d_v" "orig (Edge o_v d_v w old) = o_v"
  "weight (Edge o_v d_v w old) = w" "reverse (Edge o_v d_v w old) = None"
  "selected (Edge o_v d_v w old) = False" "flow (Edge o_v d_v w old) = flow old"
  by (simp_all add: Edge_def)

lemma setReverse_simps [simp]:
  "vertexSet (setReverse e r g) = vertexSet g"
  "vertexMap (setReverse e r g) = vertexMap g"
  "vmem (setReverse e r g) = vmem g"
  "vnext (setReverse e r g) = vnext g"
  "enext (setReverse e r g) = enext g"
  "dest (emem (setReverse e r g) i) = dest (emem g i)"
  "orig (emem (setReverse e r g) i) = orig (emem g i)"
  "weight (emem (setReverse e r g) i) = weight (emem g i)"
  "selected (emem (setReverse e r g) i) = selected (emem g i)"
  "flow (emem (setReverse e r g) i) = flow (emem g i)"
  "reverse (emem (setReverse e r g) i) = (if i = e then r else reverse (emem g i))"
  by (simp_all add: setReverse_def emem_upd_edge)

lemma wf_graph_Graph: "wf_graph (Graph vm em)"
  by (simp add: wf_graph_def index_inv_def links_inv_def alloc_inv_def Graph_def)

lemma index_inv_keyD: "index_inv g \<Longrightarrow> vertexMap g k = Some v \<Longrightarrow> v \<in> set (vertexSet g) \<and> getInfo g v = k"
  by (simp add: index_inv_def)

lemma index_inv_lookup: "index_inv g \<Longrightarrow> v \<in> set (vertexSet g) \<Longrightarrow> vertexMap g (getInfo g v) = Some v"
  by (simp add: index_inv_def)

lemma index_inv_distinct: "index_inv g \<Longrightarrow> distinct (vertexSet g)"
  by (auto simp: index_inv_def distinct_map)

lemma index_inv_inj:
  "index_inv g \<Longrightarrow> u \<in> set (vertexSet g) \<Longrightarrow> v \<in> set (vertexSet g) \<Longrightarrow>
   getInfo g u = getInfo g v \<Longrightarrow> u = v"
  by (auto simp: index_inv_def distinct_map dest: inj_onD)

lemma addVertex_absent:
  "vertexMap g k = None \<Longrightarrow>
   addVertex k g = (True, g\<lparr>vmem := (vmem g)(vnext g := Vertex k (vmem g (vnext g))),
      vnext := Suc (vnext g), vertexSet := vertexSet g @ [vnext g],
      vertexMap := (vertexMap g)(k \<mapsto> vnext g)\<rparr>)"
  by (simp add: addVertex_def findVertex_def Let_def)

lemma addVertex_present: "vertexMap g k \<noteq> None \<Longrightarrow> addVertex k g = (False, g)"
  by (simp add: addVertex_def findVertex_def)

lemma Vertex_simps [simp]:
  "info (Vertex k old) = k" "adj (Vertex k old) = []" "incoming (Vertex k old) = []"
  "visited (Vertex k old) = False" "processing (Vertex k old) = False"
  "indegree (Vertex k old) = indegree old"
  by (simp_all add: Vertex_def)

lemma wf_graph_addVertex:
  assumes "wf_graph g"
  shows "wf_graph (snd (addVertex k g))"
proof (cases "vertexMap g k")
  case (Some v)
  with assms show ?thesis by (simp add: addVertex_present)
next
  case None
  from assms have idx: "index_inv g" and lnk: "links_inv g" and alc: "alloc_inv g"
    by (simp_all add: wf_graph_def)
  let ?p = "vnext g"
  have fresh: "?p \<notin> set (vertexSet g)" using alc by (auto simp: alloc_inv_def)
  have nokey: "\<forall>v\<in>set (vertexSet g). getInfo g v \<noteq> k"
    using index_inv_lookup [OF idx] None by fastforce
  let ?g = "snd (addVertex k g)"
  have vs: "vertexSet ?g = vertexSet g @ [?p]" and vm: "vertexMap ?g = (vertexMap g)(k \<mapsto> ?p)"
    and em: "emem ?g = emem g" and vn: "vnext ?g = Suc ?p" and en: "enext ?g = enext g"
    and mem: "vmem ?g = (vmem g)(?p := Vertex k (vmem g ?p))"
    by (simp_all add: addVertex_absent [OF None])
  have old: "\<And>v. v \<in> set (vertexSet g) \<Longrightarrow> vmem ?g v = vmem g v"
    using fresh by (auto simp: mem)
  have new: "vmem ?g ?p = Vertex k (vmem g ?p)" by (simp add: mem)
  have "index_inv ?g"
    unfolding index_inv_def
  proof (intro conjI allI)
    fix k' v
    show "vertexMap ?g k' = Some v \<longleftrightarrow> v \<in> set (vertexSet ?g) \<and> getInfo ?g v = k'"
      using idx nokey fresh by (auto simp: vs vm old new index_inv_def)
    show "distinct (map (getInfo ?g) (vertexSet ?g))"
      using idx nokey by (auto simp: vs old new index_inv_def cong: map_cong)
  qed
  moreover have "links_inv ?g"
    using lnk unfolding links_inv_def by (auto simp: vs em old new)
  moreover have "alloc_inv ?g"
    using alc unfolding alloc_inv_def by (auto simp: vs vn en old new)
  ultimately show ?thesis by (simp add: wf_graph_def)
qed

lemma wf_graph_Vertex_addEdge:
  assumes "wf_graph g" "this \<in> set (vertexSet g)" "d \<in> set (vertexSet g)"
  shows "wf_graph (snd (Vertex_addEdge this d w g))"
proof -
  from assms have idx: "index_inv g" and lnk: "links_inv g" and alc: "alloc_inv g"
    by (simp_all add: wf_graph_def)
  let ?g = "snd (Vertex_addEdge this d w g)"
  have fresh: "\<And>v e. v \<in> set (vertexSet g) \<Longrightarrow> e \<in> set (getAdj g v) \<or> e \<in> set (getIncoming g v) \<Longrightarrow> e \<noteq> enext g"
    using alc by (auto simp: alloc_inv_def)
  have "index_inv ?g" using idx by (simp add: index_inv_def cong: map_cong)
  moreover have "links_inv ?g"
    unfolding links_inv_def
  proof (intro ballI conjI)
    fix v e assume v: "v \<in> set (vertexSet ?g)" and e: "e \<in> set (getAdj ?g v)"
    show "getOrig ?g e = v" "getDest ?g e \<in> set (vertexSet ?g)"
      "e \<in> set (getIncoming ?g (getDest ?g e))"
      using v e lnk assms(2,3) fresh [of v e]
      by (auto simp: links_inv_def split: if_splits)
  next
    fix v e assume v: "v \<in> set (vertexSet ?g)" and e: "e \<in> set (getIncoming ?g v)"
    show "getDest ?g e = v" "getOrig ?g e \<in> set (vertexSet ?g)"
      "e \<in> set (getAdj ?g (getOrig ?g e))"
      using v e lnk assms(2,3) fresh [of v e]
      by (auto simp: links_inv_def split: if_splits)
  qed
  moreover have "alloc_inv ?g"
    using alc unfolding alloc_inv_def by (auto simp: less_Suc_eq)
  ultimately show ?thesis by (simp add: wf_graph_def)
qed

lemma wf_graph_setReverse: "wf_graph g \<Longrightarrow> wf_graph (setReverse e r g)"
  by (simp add: wf_graph_def index_inv_def links_inv_def alloc_inv_def cong: map_cong)

lemma wf_graph_addEdge:
  assumes "wf_graph g"
  shows "wf_graph (snd (addEdge s d w g))"
proof -
  from assms have idx: "index_inv g" by (simp add: wf_graph_def)
  show ?thesis
    using assms index_inv_keyD [OF idx]
    by (auto simp: addEdge_def findVertex_def split: option.splits
        intro!: wf_graph_Vertex_addEdge)
qed

lemma wf_graph_addBidirectionalEdge:
  assumes "wf_graph g"
  shows "wf_graph (snd (addBidirectionalEdge s d w g))"
proof (cases "findVertex s g")
  case None
  with assms show ?thesis by (simp add: addBidirectionalEdge_def)
next
  case s: (Some v1)
  show ?thesis
  proof (cases "findVertex d g")
    case None
    with s assms show ?thesis by (simp add: addBidirectionalEdge_def)
  next
    case d: (Some v2)
    from assms have idx: "index_inv g" by (simp add: wf_graph_def)
    from s d have v1: "v1 \<in> set (vertexSet g)" and v2: "v2 \<in> set (vertexSet g)"
      using index_inv_keyD [OF idx] by (auto simp: findVertex_def)
    let ?g1 = "snd (Vertex_addEdge v1 v2 w g)"
    let ?g2 = "snd (Vertex_addEdge v2 v1 w ?g1)"
    have "wf_graph ?g1" using assms v1 v2 by (rule wf_graph_Vertex_addEdge)
    then have "wf_graph ?g2" by (rule wf_graph_Vertex_addEdge) (simp_all add: v1 v2)
    then show ?thesis
      using s d by (simp add: addBidirectionalEdge_def split_beta Let_def wf_graph_setReverse)
  qed
qed

section \<open>The edge removal loops\<close>

lemma same_but_lists_refl [simp]: "same_but_lists g g"
  by (simp add: same_but_lists_def)

lemma same_but_lists_trans:
  "same_but_lists g g' \<Longrightarrow> same_but_lists g' g'' \<Longrightarrow> same_but_lists g g''"
  unfolding same_but_lists_def
  apply (intro conjI allI)
       apply simp_all
  subgoal for v
    apply (erule conjE)+
    apply (drule_tac x=v in spec)+
    apply (cases "vmem g v"; cases "vmem g' v"; cases "vmem g'' v")
    apply simp
    done
  done

lemma same_but_lists_upd:
  "(\<And>x. f x = x\<lparr>adj := adj (f x), incoming := incoming (f x)\<rparr>) \<Longrightarrow>
   same_but_lists g (upd_vertex v f g)"
  by (auto simp: same_but_lists_def vmem_upd_vertex)

lemma same_but_lists_fields:
  assumes "same_but_lists g g'"
  shows "vertexSet g' = vertexSet g" "vertexMap g' = vertexMap g" "emem g' = emem g"
    "vnext g' = vnext g" "enext g' = enext g" "getInfo g' v = getInfo g v"
    "isVisited g' v = isVisited g v" "isProcessing g' v = isProcessing g v"
    "getIndegree g' v = getIndegree g v"
proof -
  from assms have v: "vmem g' v = (vmem g v)\<lparr>adj := getAdj g' v, incoming := getIncoming g' v\<rparr>"
    by (simp add: same_but_lists_def)
  show "getInfo g' v = getInfo g v" by (subst v) simp
  show "isVisited g' v = isVisited g v" by (subst v) simp
  show "isProcessing g' v = isProcessing g v" by (subst v) simp
  show "getIndegree g' v = getIndegree g v" by (subst v) simp
qed (use assms in \<open>simp_all add: same_but_lists_def\<close>)

lemma deleteEdge_simps:
  "same_but_lists g (deleteEdge this e g)"
  "getAdj (deleteEdge this e g) u = getAdj g u"
  "getIncoming (deleteEdge this e g) u =
     (if u = getDest g e
      then filter (\<lambda>i. getInfo g (getOrig g i) \<noteq> getInfo g this) (getIncoming g u)
      else getIncoming g u)"
  by (auto simp: deleteEdge_def Let_def vmem_upd_vertex intro: same_but_lists_upd)

lemma set_adj_simps:
  "same_but_lists g (upd_vertex v (\<lambda>x. x\<lparr>adj := es\<rparr>) g)"
  "getAdj (upd_vertex v (\<lambda>x. x\<lparr>adj := es\<rparr>) g) u = (if u = v then es else getAdj g u)"
  "getIncoming (upd_vertex v (\<lambda>x. x\<lparr>adj := es\<rparr>) g) u = getIncoming g u"
  by (auto simp: vmem_upd_vertex intro: same_but_lists_upd)

text \<open>One step of the erase loops: drop the entry under the iterator, then \<^verbatim>\<open>deleteEdge\<close>.\<close>

lemma erase_step:
  fixes g this e es
  defines "g1 \<equiv> deleteEdge this e (upd_vertex this (\<lambda>x. x\<lparr>adj := es\<rparr>) g)"
  shows "same_but_lists g g1"
    "getAdj g1 u = (if u = this then es else getAdj g u)"
    "getIncoming g1 u =
       (if u = getDest g e
        then filter (\<lambda>i. getInfo g (getOrig g i) \<noteq> getInfo g this) (getIncoming g u)
        else getIncoming g u)"
    "emem g1 = emem g" "getInfo g1 u = getInfo g u"
proof -
  let ?g0 = "upd_vertex this (\<lambda>x. x\<lparr>adj := es\<rparr>) g"
  have 0: "same_but_lists g ?g0" by (rule set_adj_simps)
  have 1: "same_but_lists ?g0 g1" unfolding g1_def by (rule deleteEdge_simps)
  from 0 1 show s: "same_but_lists g g1" by (rule same_but_lists_trans)
  show "getAdj g1 u = (if u = this then es else getAdj g u)"
    by (simp add: g1_def deleteEdge_simps set_adj_simps)
  show "emem g1 = emem g" "getInfo g1 u = getInfo g u"
    using s by (simp_all add: same_but_lists_fields)
  show "getIncoming g1 u =
       (if u = getDest g e
        then filter (\<lambda>i. getInfo g (getOrig g i) \<noteq> getInfo g this) (getIncoming g u)
        else getIncoming g u)"
    unfolding g1_def
    by (simp add: deleteEdge_simps(3) set_adj_simps(3) same_but_lists_fields [OF 0])
qed

lemma removeEdge_loop_frame:
  "same_but_lists g (snd (removeEdge_loop this i kept rest r g))"
proof (induction rest arbitrary: kept r g)
  case Nil
  show ?case by simp
next
  case (Cons e rest)
  show ?case
    using Cons.IH [where kept = kept and r = True
        and g = "deleteEdge this e (upd_vertex this (\<lambda>x. x\<lparr>adj := kept @ rest\<rparr>) g)"]
      Cons.IH [where kept = "kept @ [e]" and r = r and g = g]
      erase_step(1) [where g = g and this = this and e = e and es = "kept @ rest"]
    by (auto intro: same_but_lists_trans)
qed

lemma removeEdge_loop_fst:
  "fst (removeEdge_loop this i kept rest r g) \<longleftrightarrow>
     r \<or> (\<exists>e\<in>set rest. getInfo g (getDest g e) = i)"
proof (induction rest arbitrary: kept r g)
  case Nil
  show ?case by simp
next
  case (Cons e rest)
  note st = erase_step [where g = g and this = this and e = e and es = "kept @ rest"]
  show ?case
    using Cons.IH [where kept = kept and r = True
        and g = "deleteEdge this e (upd_vertex this (\<lambda>x. x\<lparr>adj := kept @ rest\<rparr>) g)"]
      Cons.IH [where kept = "kept @ [e]" and r = r and g = g]
    by (auto simp: st(4,5))
qed

lemma removeEdge_loop_adj:
  "getAdj g this = kept @ rest \<Longrightarrow>
   getAdj (snd (removeEdge_loop this i kept rest r g)) u =
     (if u = this then kept @ filter (\<lambda>e. getInfo g (getDest g e) \<noteq> i) rest else getAdj g u)"
proof (induction rest arbitrary: kept r g)
  case Nil
  then show ?case by simp
next
  case (Cons e rest)
  let ?g1 = "deleteEdge this e (upd_vertex this (\<lambda>x. x\<lparr>adj := kept @ rest\<rparr>) g)"
  note st = erase_step [where g = g and this = this and e = e and es = "kept @ rest"]
  show ?case
  proof (cases "getInfo g (getDest g e) = i")
    case True
    have "getAdj ?g1 this = kept @ rest" by (simp add: st(2))
    from Cons.IH [OF this, where r = True] True show ?thesis
      by (simp add: st(2,4,5))
  next
    case False
    from Cons.prems have "getAdj g this = (kept @ [e]) @ rest" by simp
    from Cons.IH [OF this, where r = r] False show ?thesis by simp
  qed
qed

lemma removeEdge_loop_incoming:
  "getIncoming (snd (removeEdge_loop this i kept rest r g)) u =
     (if \<exists>e\<in>set rest. getInfo g (getDest g e) = i \<and> getDest g e = u
      then filter (\<lambda>j. getInfo g (getOrig g j) \<noteq> getInfo g this) (getIncoming g u)
      else getIncoming g u)"
proof (induction rest arbitrary: kept r g)
  case Nil
  then show ?case by simp
next
  case (Cons e rest)
  let ?g1 = "deleteEdge this e (upd_vertex this (\<lambda>x. x\<lparr>adj := kept @ rest\<rparr>) g)"
  note st = erase_step [where g = g and this = this and e = e and es = "kept @ rest"]
  show ?case
  proof (cases "getInfo g (getDest g e) = i")
    case True
    from Cons.IH [where g = ?g1 and kept = kept and r = True] True show ?thesis
      by (auto simp: st(3,4,5))
  next
    case False
    from Cons.IH [where g = g and kept = "kept @ [e]" and r = r] False show ?thesis by auto
  qed
qed

lemma Vertex_removeEdge_props:
  "same_but_lists g (snd (Vertex_removeEdge this i g))"
  "fst (Vertex_removeEdge this i g) \<longleftrightarrow> (\<exists>e\<in>set (getAdj g this). getInfo g (getDest g e) = i)"
  "getAdj (snd (Vertex_removeEdge this i g)) u =
     (if u = this then filter (\<lambda>e. getInfo g (getDest g e) \<noteq> i) (getAdj g this) else getAdj g u)"
  "getIncoming (snd (Vertex_removeEdge this i g)) u =
     (if \<exists>e\<in>set (getAdj g this). getInfo g (getDest g e) = i \<and> getDest g e = u
      then filter (\<lambda>j. getInfo g (getOrig g j) \<noteq> getInfo g this) (getIncoming g u)
      else getIncoming g u)"
  unfolding Vertex_removeEdge_def
  by (simp_all add: removeEdge_loop_frame removeEdge_loop_fst removeEdge_loop_adj
      removeEdge_loop_incoming)

lemma removeOutgoingEdges_loop_frame:
  "same_but_lists g (removeOutgoingEdges_loop this rest g)"
proof (induction rest arbitrary: g)
  case Nil
  show ?case by simp
next
  case (Cons e rest)
  show ?case
    using Cons.IH [where g = "deleteEdge this e (upd_vertex this (\<lambda>x. x\<lparr>adj := rest\<rparr>) g)"]
      erase_step(1) [where g = g and this = this and e = e and es = rest]
    by (auto intro: same_but_lists_trans)
qed

lemma removeOutgoingEdges_loop_adj:
  "getAdj g this = rest \<Longrightarrow>
   getAdj (removeOutgoingEdges_loop this rest g) u = (if u = this then [] else getAdj g u)"
proof (induction rest arbitrary: g)
  case Nil
  then show ?case by simp
next
  case (Cons e rest)
  let ?g1 = "deleteEdge this e (upd_vertex this (\<lambda>x. x\<lparr>adj := rest\<rparr>) g)"
  note st = erase_step [where g = g and this = this and e = e and es = rest]
  have "getAdj ?g1 this = rest" by (simp add: st(2))
  from Cons.IH [OF this] show ?case by (simp add: st(2))
qed

lemma removeOutgoingEdges_loop_incoming:
  "getIncoming (removeOutgoingEdges_loop this rest g) u =
     (if \<exists>e\<in>set rest. getDest g e = u
      then filter (\<lambda>j. getInfo g (getOrig g j) \<noteq> getInfo g this) (getIncoming g u)
      else getIncoming g u)"
proof (induction rest arbitrary: g)
  case Nil
  then show ?case by simp
next
  case (Cons e rest)
  let ?g1 = "deleteEdge this e (upd_vertex this (\<lambda>x. x\<lparr>adj := rest\<rparr>) g)"
  note st = erase_step [where g = g and this = this and e = e and es = rest]
  from Cons.IH [where g = ?g1] show ?case
    by (auto simp: st(3,4,5))
qed

lemma removeOutgoingEdges_props:
  "same_but_lists g (removeOutgoingEdges this g)"
  "getAdj (removeOutgoingEdges this g) u = (if u = this then [] else getAdj g u)"
  "getIncoming (removeOutgoingEdges this g) u =
     (if \<exists>e\<in>set (getAdj g this). getDest g e = u
      then filter (\<lambda>j. getInfo g (getOrig g j) \<noteq> getInfo g this) (getIncoming g u)
      else getIncoming g u)"
  unfolding removeOutgoingEdges_def
  by (simp_all add: removeOutgoingEdges_loop_frame removeOutgoingEdges_loop_adj
      removeOutgoingEdges_loop_incoming)

section \<open>Removing edges and vertices keeps the graph well formed\<close>

lemma links_inv_adjD:
  "links_inv g \<Longrightarrow> v \<in> set (vertexSet g) \<Longrightarrow> e \<in> set (getAdj g v) \<Longrightarrow>
   getOrig g e = v \<and> getDest g e \<in> set (vertexSet g) \<and> e \<in> set (getIncoming g (getDest g e))"
  by (simp add: links_inv_def)

lemma links_inv_incomingD:
  "links_inv g \<Longrightarrow> v \<in> set (vertexSet g) \<Longrightarrow> e \<in> set (getIncoming g v) \<Longrightarrow>
   getDest g e = v \<and> getOrig g e \<in> set (vertexSet g) \<and> e \<in> set (getAdj g (getOrig g e))"
  by (simp add: links_inv_def)

lemma wf_graph_Vertex_removeEdge:
  assumes wf: "wf_graph g" and this_in: "this \<in> set (vertexSet g)"
  shows "wf_graph (snd (Vertex_removeEdge this i g))"
proof -
  from wf have idx: "index_inv g" and lnk: "links_inv g" and alc: "alloc_inv g"
    by (simp_all add: wf_graph_def)
  let ?g = "snd (Vertex_removeEdge this i g)"
  note p = Vertex_removeEdge_props [where g = g and this = this and i = i]
  note f = same_but_lists_fields [OF p(1)]
  note inj = index_inv_inj [OF idx]
  have adj_sub: "\<And>u. set (getAdj ?g u) \<subseteq> set (getAdj g u)" by (auto simp: p(3))
  have inc_sub: "\<And>u. set (getIncoming ?g u) \<subseteq> set (getIncoming g u)" by (auto simp: p(4))
  have "index_inv ?g" using idx by (simp add: index_inv_def f cong: map_cong)
  moreover have "links_inv ?g"
    unfolding links_inv_def
  proof (intro ballI conjI)
    fix v e assume v: "v \<in> set (vertexSet ?g)" and e: "e \<in> set (getAdj ?g v)"
    from v have v': "v \<in> set (vertexSet g)" by (simp add: f)
    from e adj_sub have e': "e \<in> set (getAdj g v)" by blast
    note l = links_inv_adjD [OF lnk v' e']
    show "getOrig ?g e = v" "getDest ?g e \<in> set (vertexSet ?g)" using l by (simp_all add: f)
    show "e \<in> set (getIncoming ?g (getDest ?g e))"
    proof (cases "v = this")
      case False
      with l inj [OF v' this_in] show ?thesis by (auto simp: f p(4))
    next
      case True
      with e have "getInfo g (getDest g e) \<noteq> i" by (simp add: p(3))
      with l show ?thesis by (auto simp: f p(4))
    qed
  next
    fix v e assume v: "v \<in> set (vertexSet ?g)" and e: "e \<in> set (getIncoming ?g v)"
    from v have v': "v \<in> set (vertexSet g)" by (simp add: f)
    from e inc_sub have e': "e \<in> set (getIncoming g v)" by blast
    note l = links_inv_incomingD [OF lnk v' e']
    show "getDest ?g e = v" "getOrig ?g e \<in> set (vertexSet ?g)" using l by (simp_all add: f)
    show "e \<in> set (getAdj ?g (getOrig ?g e))"
    proof (cases "getOrig g e = this")
      case False
      with l show ?thesis by (simp add: f p(3))
    next
      case True
      have "getInfo g v \<noteq> i"
      proof
        assume "getInfo g v = i"
        with l True have "\<exists>x\<in>set (getAdj g this). getInfo g (getDest g x) = i \<and> getDest g x = v"
          by auto
        with e True show False by (simp add: p(4))
      qed
      with l True show ?thesis by (simp add: f p(3))
    qed
  qed
  moreover have "alloc_inv ?g"
    using alc adj_sub inc_sub unfolding alloc_inv_def by (simp add: f) blast
  ultimately show ?thesis by (simp add: wf_graph_def)
qed

lemma wf_graph_removeEdge:
  assumes "wf_graph g"
  shows "wf_graph (snd (removeEdge s d g))"
proof (cases "findVertex s g")
  case None
  with assms show ?thesis by (simp add: removeEdge_def)
next
  case (Some v)
  from assms have "index_inv g" by (simp add: wf_graph_def)
  with Some have "v \<in> set (vertexSet g)" by (auto simp: findVertex_def dest: index_inv_keyD)
  with assms Some show ?thesis by (simp add: removeEdge_def wf_graph_Vertex_removeEdge)
qed

lemma removing_step:
  assumes wf: "wf_graph g" and v: "v \<in> set (vertexSet g)" and u: "u \<in> set (vertexSet g)"
    and D: "u \<notin> D" and inv: "removing g v D h"
  shows "removing g v (insert u D) (removeVertex_step v u h)"
proof -
  from wf have idx: "index_inv g" and lnk: "links_inv g" by (simp_all add: wf_graph_def)
  from inv have sb: "same_but_lists g h"
    and adj: "\<And>w. getAdj h w =
        (if w \<in> D then (if w = v then [] else filter (\<lambda>e. getDest g e \<noteq> v) (getAdj g w))
         else getAdj g w)"
    and inc: "\<And>x. x \<in> set (vertexSet g) \<Longrightarrow> getIncoming h x =
        filter (\<lambda>e. \<not> (getOrig g e \<in> D \<and> (getOrig g e = v \<or> x = v))) (getIncoming g x)"
    by (simp_all add: removing_def)
  note f = same_but_lists_fields [OF sb]
  note inj = index_inv_inj [OF idx]
  have adj_u: "getAdj h u = getAdj g u" using D by (simp add: adj)
  have key_dest: "\<And>e. e \<in> set (getAdj g u) \<Longrightarrow> getInfo g (getDest g e) = getInfo g v \<longleftrightarrow> getDest g e = v"
    using links_inv_adjD [OF lnk u] inj [OF _ v] by blast
  have key_orig: "\<And>x j w. x \<in> set (vertexSet g) \<Longrightarrow> w \<in> set (vertexSet g) \<Longrightarrow> j \<in> set (getIncoming g x) \<Longrightarrow>
      getInfo g (getOrig g j) = getInfo g w \<longleftrightarrow> getOrig g j = w"
    using links_inv_incomingD [OF lnk] inj by blast
  let ?h = "removeVertex_step v u h"
  show ?thesis
  proof (cases "u = v")
    case False
    note p = Vertex_removeEdge_props [where g = h and this = u and i = "getInfo h v"]
    have h': "?h = snd (Vertex_removeEdge u (getInfo h v) h)"
      using False by (simp add: removeVertex_step_def)
    have 1: "same_but_lists g ?h" unfolding h' using sb p(1) by (rule same_but_lists_trans)
    have 2: "getAdj ?h w =
        (if w \<in> insert u D then (if w = v then [] else filter (\<lambda>e. getDest g e \<noteq> v) (getAdj g w))
         else getAdj g w)" for w
    proof (cases "w = u")
      case True
      have "filter (\<lambda>e. getInfo g (getDest g e) \<noteq> getInfo g v) (getAdj g u) =
          filter (\<lambda>e. getDest g e \<noteq> v) (getAdj g u)"
        by (rule filter_cong) (simp_all add: key_dest)
      moreover have "getAdj ?h u =
          filter (\<lambda>e. getInfo h (getDest h e) \<noteq> getInfo h v) (getAdj h u)"
        unfolding h' p(3) by simp
      ultimately show ?thesis using True False by (simp add: adj_u f)
    next
      case False
      have "getAdj ?h w = getAdj h w" unfolding h' p(3) using False by simp
      with False show ?thesis by (simp add: adj)
    qed
    have 3: "getIncoming ?h x =
        filter (\<lambda>e. \<not> (getOrig g e \<in> insert u D \<and> (getOrig g e = v \<or> x = v))) (getIncoming g x)"
      if x: "x \<in> set (vertexSet g)" for x
    proof (cases "\<exists>e\<in>set (getAdj g u). getDest g e = v \<and> v = x")
      case True
      then have xv: "x = v" by blast
      from True have c: "\<exists>e\<in>set (getAdj h u). getInfo h (getDest h e) = getInfo h v \<and> getDest h e = x"
        by (auto simp: adj_u f)
      have "getIncoming ?h x =
          filter (\<lambda>j. getInfo g (getOrig g j) \<noteq> getInfo g u) (getIncoming h x)"
        unfolding h' p(4) using c by (simp add: f)
      also have "\<dots> = filter (\<lambda>j. getInfo g (getOrig g j) \<noteq> getInfo g u)
          (filter (\<lambda>e. \<not> (getOrig g e \<in> D \<and> (getOrig g e = v \<or> x = v))) (getIncoming g x))"
        by (simp add: inc [OF x])
      also have "\<dots> = filter (\<lambda>e. \<not> (getOrig g e \<in> insert u D \<and> (getOrig g e = v \<or> x = v))) (getIncoming g x)"
        unfolding filter_filter
        by (rule filter_cong) (use key_orig [OF x u] xv in auto)
      finally show ?thesis .
    next
      case no: False
      then have c: "\<not> (\<exists>e\<in>set (getAdj h u). getInfo h (getDest h e) = getInfo h v \<and> getDest h e = x)"
        using key_dest by (auto simp: adj_u f)
      have "getIncoming ?h x = getIncoming h x"
        unfolding h' p(4) using c by (simp only: if_False)
      also have "\<dots> = filter (\<lambda>e. \<not> (getOrig g e \<in> D \<and> (getOrig g e = v \<or> x = v))) (getIncoming g x)"
        by (rule inc [OF x])
      also have "\<dots> = filter (\<lambda>e. \<not> (getOrig g e \<in> insert u D \<and> (getOrig g e = v \<or> x = v))) (getIncoming g x)"
      proof (rule filter_cong [OF refl])
        fix j assume j: "j \<in> set (getIncoming g x)"
        note l = links_inv_incomingD [OF lnk x j]
        show "(\<not> (getOrig g j \<in> D \<and> (getOrig g j = v \<or> x = v))) =
            (\<not> (getOrig g j \<in> insert u D \<and> (getOrig g j = v \<or> x = v)))"
          using l no \<open>u \<noteq> v\<close> by auto
      qed
      finally show ?thesis .
    qed
    from 1 2 3 show ?thesis by (simp add: removing_def)
  next
    case True
    note p = removeOutgoingEdges_props [where g = h and this = u]
    have h': "?h = removeOutgoingEdges v h" using True by (simp add: removeVertex_step_def)
    have adj_v: "getAdj h v = getAdj g v" using adj_u True by simp
    have 1: "same_but_lists g ?h" unfolding h' using sb p(1) True
      by (auto intro: same_but_lists_trans)
    have 2: "getAdj ?h w =
        (if w \<in> insert u D then (if w = v then [] else filter (\<lambda>e. getDest g e \<noteq> v) (getAdj g w))
         else getAdj g w)" for w
      unfolding h' removeOutgoingEdges_props(2) using True by (simp add: adj)
    have 3: "getIncoming ?h x =
        filter (\<lambda>e. \<not> (getOrig g e \<in> insert u D \<and> (getOrig g e = v \<or> x = v))) (getIncoming g x)"
      if x: "x \<in> set (vertexSet g)" for x
    proof (cases "\<exists>e\<in>set (getAdj g v). getDest g e = x")
      case yes: True
      then have c: "\<exists>e\<in>set (getAdj h v). getDest h e = x" by (simp add: adj_v f)
      have "getIncoming ?h x =
          filter (\<lambda>j. getInfo g (getOrig g j) \<noteq> getInfo g v) (getIncoming h x)"
        unfolding h' removeOutgoingEdges_props(3) using c by (simp add: f)
      also have "\<dots> = filter (\<lambda>j. getInfo g (getOrig g j) \<noteq> getInfo g v)
          (filter (\<lambda>e. \<not> (getOrig g e \<in> D \<and> (getOrig g e = v \<or> x = v))) (getIncoming g x))"
        by (simp add: inc [OF x])
      also have "\<dots> = filter (\<lambda>e. \<not> (getOrig g e \<in> insert u D \<and> (getOrig g e = v \<or> x = v))) (getIncoming g x)"
        unfolding filter_filter
        by (rule filter_cong) (use key_orig [OF x v] True in auto)
      finally show ?thesis .
    next
      case no: False
      then have c: "\<not> (\<exists>e\<in>set (getAdj h v). getDest h e = x)" by (simp add: adj_v f)
      have "getIncoming ?h x = getIncoming h x"
        unfolding h' removeOutgoingEdges_props(3) using c by (simp only: if_False)
      also have "\<dots> = filter (\<lambda>e. \<not> (getOrig g e \<in> D \<and> (getOrig g e = v \<or> x = v))) (getIncoming g x)"
        by (rule inc [OF x])
      also have "\<dots> = filter (\<lambda>e. \<not> (getOrig g e \<in> insert u D \<and> (getOrig g e = v \<or> x = v))) (getIncoming g x)"
      proof (rule filter_cong [OF refl])
        fix j assume j: "j \<in> set (getIncoming g x)"
        note l = links_inv_incomingD [OF lnk x j]
        show "(\<not> (getOrig g j \<in> D \<and> (getOrig g j = v \<or> x = v))) =
            (\<not> (getOrig g j \<in> insert u D \<and> (getOrig g j = v \<or> x = v)))"
          using l no True by auto
      qed
      finally show ?thesis .
    qed
    from 1 2 3 show ?thesis by (simp add: removing_def)
  qed
qed

lemma removing_fold:
  assumes wf: "wf_graph g" and v: "v \<in> set (vertexSet g)"
  shows "set us \<subseteq> set (vertexSet g) \<Longrightarrow> distinct us \<Longrightarrow> set us \<inter> D = {} \<Longrightarrow>
    removing g v D h \<Longrightarrow> removing g v (D \<union> set us) (fold (removeVertex_step v) us h)"
proof (induction us arbitrary: D h)
  case Nil
  then show ?case by simp
next
  case (Cons u us)
  from Cons.prems have "removing g v (insert u D) (removeVertex_step v u h)"
    by (intro removing_step [OF wf v]) auto
  from Cons.IH [OF _ _ _ this] Cons.prems show ?case by auto
qed

lemma removeVertex_fold:
  "removeVertex k g =
     (case vertexMap g k of
        None \<Rightarrow> (False, g)
      | Some v \<Rightarrow>
          let g1 = fold (removeVertex_step v) (vertexSet g) g
          in (True, g1\<lparr>vertexSet := removeAll v (vertexSet g1),
                       vertexMap := (vertexMap g1)(k := None)\<rparr>))"
  unfolding removeVertex_def removeVertex_step_def [abs_def] by (rule refl)

lemma removeVertex_present:
  assumes wf: "wf_graph g" and k: "vertexMap g k = Some v"
  defines "g' \<equiv> snd (removeVertex k g)"
  shows "fst (removeVertex k g)"
    "vertexSet g' = removeAll v (vertexSet g)" "vertexMap g' = (vertexMap g)(k := None)"
    "emem g' = emem g" "vnext g' = vnext g" "enext g' = enext g"
    "getInfo g' u = getInfo g u"
    "u \<in> set (vertexSet g) \<Longrightarrow>
       getAdj g' u = (if u = v then [] else filter (\<lambda>e. getDest g e \<noteq> v) (getAdj g u))"
    "u \<in> set (vertexSet g) \<Longrightarrow> u \<noteq> v \<Longrightarrow>
       getIncoming g' u = filter (\<lambda>e. getOrig g e \<noteq> v) (getIncoming g u)"
proof -
  from wf have idx: "index_inv g" and lnk: "links_inv g" by (simp_all add: wf_graph_def)
  from k have v: "v \<in> set (vertexSet g)" using index_inv_keyD [OF idx] by blast
  let ?g1 = "fold (removeVertex_step v) (vertexSet g) g"
  have "removing g v {} g" by (simp add: removing_def)
  from removing_fold [OF wf v subset_refl index_inv_distinct [OF idx] _ this]
  have r: "removing g v (set (vertexSet g)) ?g1" by simp
  then have sb: "same_but_lists g ?g1" by (simp add: removing_def)
  note f = same_but_lists_fields [OF sb]
  have g': "g' = ?g1\<lparr>vertexSet := removeAll v (vertexSet ?g1), vertexMap := (vertexMap ?g1)(k := None)\<rparr>"
    by (simp add: g'_def removeVertex_fold k Let_def)
  show "fst (removeVertex k g)" by (simp add: removeVertex_fold k Let_def)
  show "vertexSet g' = removeAll v (vertexSet g)" "vertexMap g' = (vertexMap g)(k := None)"
    "emem g' = emem g" "vnext g' = vnext g" "enext g' = enext g" "getInfo g' u = getInfo g u"
    by (simp_all add: g' f)
  show "getAdj g' u = (if u = v then [] else filter (\<lambda>e. getDest g e \<noteq> v) (getAdj g u))"
    if "u \<in> set (vertexSet g)"
    using r that by (simp add: removing_def g')
  show "getIncoming g' u = filter (\<lambda>e. getOrig g e \<noteq> v) (getIncoming g u)"
    if "u \<in> set (vertexSet g)" "u \<noteq> v"
  proof -
    have "getIncoming g' u =
        filter (\<lambda>e. \<not> (getOrig g e \<in> set (vertexSet g) \<and> (getOrig g e = v \<or> u = v))) (getIncoming g u)"
      using r that by (simp add: removing_def g')
    also have "\<dots> = filter (\<lambda>e. getOrig g e \<noteq> v) (getIncoming g u)"
      by (rule filter_cong) (use links_inv_incomingD [OF lnk that(1)] that(2) in auto)
    finally show ?thesis .
  qed
qed

lemma removeVertex_absent: "vertexMap g k = None \<Longrightarrow> removeVertex k g = (False, g)"
  by (simp add: removeVertex_def)

lemma wf_graph_removeVertex:
  assumes wf: "wf_graph g"
  shows "wf_graph (snd (removeVertex k g))"
proof (cases "vertexMap g k")
  case None
  with wf show ?thesis by (simp add: removeVertex_absent)
next
  case (Some v)
  from wf have idx: "index_inv g" and lnk: "links_inv g" and alc: "alloc_inv g"
    by (simp_all add: wf_graph_def)
  from Some have v: "v \<in> set (vertexSet g)" and kv: "getInfo g v = k"
    using index_inv_keyD [OF idx] by blast+
  let ?g = "snd (removeVertex k g)"
  note p = removeVertex_present [OF wf Some]
  note inj = index_inv_inj [OF idx]
  have V: "set (vertexSet ?g) = set (vertexSet g) - {v}" by (auto simp: p(2))
  have "index_inv ?g"
    unfolding index_inv_def
  proof (intro conjI allI)
    fix k' u
    show "vertexMap ?g k' = Some u \<longleftrightarrow> u \<in> set (vertexSet ?g) \<and> getInfo ?g u = k'"
    proof (cases "k' = k")
      case True
      then show ?thesis using inj [OF _ v] kv unfolding V p(3) p(7) by auto
    next
      case False
      then show ?thesis
        using index_inv_keyD [OF idx, of k' u] index_inv_lookup [OF idx, of u] kv
        unfolding V p(3) p(7) by auto
    qed
    show "distinct (map (getInfo ?g) (vertexSet ?g))"
      using idx unfolding index_inv_def p(2)
      by (simp add: p(7) distinct_map_filter removeAll_filter_not_eq cong: map_cong)
  qed
  moreover have "links_inv ?g"
    unfolding links_inv_def
  proof (intro ballI conjI)
    fix u e assume u: "u \<in> set (vertexSet ?g)" and e: "e \<in> set (getAdj ?g u)"
    from u have u': "u \<in> set (vertexSet g)" and uv: "u \<noteq> v" by (simp_all add: V)
    from e have e': "e \<in> set (getAdj g u)" and dv: "getDest g e \<noteq> v"
      by (simp_all add: p(8) [OF u'] uv)
    note l = links_inv_adjD [OF lnk u' e']
    show "getOrig ?g e = u" using l by (simp add: p(4))
    show "getDest ?g e \<in> set (vertexSet ?g)" using l dv by (simp add: p(4) V)
    show "e \<in> set (getIncoming ?g (getDest ?g e))"
      using l dv uv by (simp add: p(4) p(9))
  next
    fix u e assume u: "u \<in> set (vertexSet ?g)" and e: "e \<in> set (getIncoming ?g u)"
    from u have u': "u \<in> set (vertexSet g)" and uv: "u \<noteq> v" by (simp_all add: V)
    from e have e': "e \<in> set (getIncoming g u)" and ov: "getOrig g e \<noteq> v"
      by (simp_all add: p(9) [OF u' uv])
    note l = links_inv_incomingD [OF lnk u' e']
    show "getDest ?g e = u" using l by (simp add: p(4))
    show "getOrig ?g e \<in> set (vertexSet ?g)" using l ov by (simp add: p(4) V)
    show "e \<in> set (getAdj ?g (getOrig ?g e))"
      using l ov uv by (simp add: p(4) p(8))
  qed
  moreover have "alloc_inv ?g"
    unfolding alloc_inv_def
  proof (intro ballI conjI)
    fix u assume u: "u \<in> set (vertexSet ?g)"
    from u have u': "u \<in> set (vertexSet g)" and uv: "u \<noteq> v" by (simp_all add: V)
    show "u < vnext ?g" using alc u' by (simp add: alloc_inv_def p(5))
    show "e < enext ?g" if "e \<in> set (getAdj ?g u)" for e
      using alc u' that uv by (auto simp: alloc_inv_def p(6) p(8) [OF u'])
    show "e < enext ?g" if "e \<in> set (getIncoming ?g u)" for e
      using alc u' that by (auto simp: alloc_inv_def p(6) p(9) [OF u' uv])
  qed
  ultimately show ?thesis by (simp add: wf_graph_def)
qed

section \<open>The key index stays synchronized\<close>

lemma reachable_wf_graph: "reachable g \<Longrightarrow> wf_graph g"
proof (induction rule: reachable.induct)
  case (init vm em)
  show ?case by (rule wf_graph_Graph)
next
  case (dfs g res g')
  then show ?case using same_structure_wf_graph [OF dfs_frame] by blast
next
  case (dfs_from g s res g')
  then show ?case using same_structure_wf_graph [OF dfs_from_frame] by blast
next
  case (bfs g s res g')
  then show ?case using same_structure_wf_graph [OF bfs_frame] by blast
next
  case (isDAG g b g')
  then show ?case using same_structure_wf_graph [OF isDAG_frame] by blast
next
  case (topsort g res g')
  then show ?case using same_structure_wf_graph [OF topsort_frame] by blast
qed (simp_all add: wf_graph_addVertex wf_graph_removeVertex wf_graph_addEdge
    wf_graph_addBidirectionalEdge wf_graph_removeEdge)

lemma reachable_addVertices: "reachable g \<Longrightarrow> reachable (addVertices ks g)"
  by (induction ks arbitrary: g) (auto intro: reachable.addVertex)

lemma reachable_addEdges: "reachable g \<Longrightarrow> reachable (addEdges es g)"
proof (induction es arbitrary: g)
  case Nil
  then show ?case by simp
next
  case (Cons x es)
  obtain s d w where x: "x = (s, d, w)" by (cases x) auto
  from Cons.prems have "reachable (snd (addEdge s d w g))" by (rule reachable.addEdge)
  then have "reachable (addEdges es (snd (addEdge s d w g)))" by (rule Cons.IH)
  then show ?case by (simp add: x)
qed

lemma reachable_empty_graph: "reachable empty_graph"
  unfolding empty_graph_def by (rule reachable.init)

lemma reachable_graph_S1: "reachable graph_S1"
  unfolding graph_S1_def by (intro reachable_addEdges reachable_addVertices reachable_empty_graph)

lemma reachable_graph_one_edge: "reachable graph_one_edge"
  unfolding graph_one_edge_def
  by (intro reachable_addEdges reachable_addVertices reachable_empty_graph)

text \<open>
  C7. In every graph the public operations build, the key index and the vertex
  sequence hold the same vertices, every indexed vertex carries the key it is indexed
  under, and no two vertices of the sequence share a key.
\<close>

theorem index_synchronized:
  assumes "reachable g"
  shows "ran (vertexMap g) = set (vertexSet g) \<and>
    (\<forall>k v. vertexMap g k = Some v \<longrightarrow> getInfo g v = k) \<and>
    distinct (map (getInfo g) (vertexSet g))"
proof -
  from assms have "wf_graph g" by (rule reachable_wf_graph)
  then have idx: "index_inv g" by (simp add: wf_graph_def)
  have "ran (vertexMap g) = set (vertexSet g)"
    using index_inv_keyD [OF idx] index_inv_lookup [OF idx] by (auto simp: ran_def)
  moreover have "\<forall>k v. vertexMap g k = Some v \<longrightarrow> getInfo g v = k"
    using index_inv_keyD [OF idx] by blast
  moreover have "distinct (map (getInfo g) (vertexSet g))"
    using idx by (simp add: index_inv_def)
  ultimately show ?thesis by blast
qed

theorem index_synchronized_witness:
  "ran (vertexMap (snd (removeVertex 2 graph_S1))) = {0, 2} \<and>
   vertexSet (snd (removeVertex 2 graph_S1)) = [0, 2] \<and>
   map (getInfo (snd (removeVertex 2 graph_S1))) [0, 2] = [1, 3]"
proof -
  let ?g = "snd (removeVertex 2 graph_S1)"
  have "reachable ?g" by (intro reachable.removeVertex reachable_graph_S1)
  from index_synchronized [OF this]
  have 1: "ran (vertexMap ?g) = set (vertexSet ?g)" by blast
  have k: "vertexMap graph_S1 2 = Some 1" and vs: "vertexSet graph_S1 = [0, 1, 2]"
    and i: "getInfo graph_S1 0 = 1" "getInfo graph_S1 2 = 3"
    by (simp_all add: graph_S1_def build_defs)
  note p = removeVertex_present [OF reachable_wf_graph [OF reachable_graph_S1] k]
  have 2: "vertexSet ?g = [0, 2]" by (simp add: p(2) vs)
  have 3: "map (getInfo ?g) [0, 2] = [1, 3]" by (simp add: p(7) i)
  from 1 2 3 show ?thesis by simp
qed

section \<open>Bidirectional edges\<close>

lemma getEdgeWeight_loop_append:
  "getEdgeWeight_loop g d (xs @ ys) =
     (if \<exists>e\<in>set xs. getInfo g (getDest g e) = d then getEdgeWeight_loop g d xs
      else getEdgeWeight_loop g d ys)"
  by (induction xs) auto

lemma getEdgeWeight_loop_cong:
  "(\<And>v. getInfo g' v = getInfo g v) \<Longrightarrow>
   (\<And>e. e \<in> set es \<Longrightarrow> emem g' e = emem g e) \<Longrightarrow>
   getEdgeWeight_loop g' d es = getEdgeWeight_loop g d es"
  by (induction es) auto

lemma addBidirectionalEdge_absent:
  "findVertex s g = None \<or> findVertex d g = None \<Longrightarrow>
   addBidirectionalEdge s d w g = (False, g)"
  by (auto simp: addBidirectionalEdge_def split: option.splits)

lemma addBidirectionalEdge_present:
  fixes w :: real
  assumes s: "findVertex s g = Some v1" and d: "findVertex d g = Some v2"
  defines "g' \<equiv> snd (addBidirectionalEdge s d w g)"
  defines "e1 \<equiv> enext g" and "e2 \<equiv> Suc (enext g)"
  shows "fst (addBidirectionalEdge s d w g)"
    "vertexSet g' = vertexSet g" "vertexMap g' = vertexMap g"
    "vnext g' = vnext g" "enext g' = Suc (Suc (enext g))"
    "getInfo g' u = getInfo g u"
    "getAdj g' u = getAdj g u @ (if u = v1 then [e1] else []) @ (if u = v2 then [e2] else [])"
    "getIncoming g' u =
       getIncoming g u @ (if u = v2 then [e1] else []) @ (if u = v1 then [e2] else [])"
    "e \<noteq> e1 \<Longrightarrow> e \<noteq> e2 \<Longrightarrow> emem g' e = emem g e"
    "getOrig g' e1 = v1" "getDest g' e1 = v2" "getWeight g' e1 = w" "getReverse g' e1 = Some e2"
    "getOrig g' e2 = v2" "getDest g' e2 = v1" "getWeight g' e2 = w" "getReverse g' e2 = Some e1"
proof -
  let ?g1 = "snd (Vertex_addEdge v1 v2 w g)"
  let ?g2 = "snd (Vertex_addEdge v2 v1 w ?g1)"
  have r: "addBidirectionalEdge s d w g = (True, setReverse e2 (Some e1) (setReverse e1 (Some e2) ?g2))"
    using s d by (simp add: addBidirectionalEdge_def split_beta Let_def e1_def e2_def)
  have g': "g' = setReverse e2 (Some e1) (setReverse e1 (Some e2) ?g2)"
    by (simp add: g'_def r)
  show "fst (addBidirectionalEdge s d w g)" by (simp add: r)
  show "vertexSet g' = vertexSet g" "vertexMap g' = vertexMap g"
    "vnext g' = vnext g" "enext g' = Suc (Suc (enext g))" "getInfo g' u = getInfo g u"
    "getAdj g' u = getAdj g u @ (if u = v1 then [e1] else []) @ (if u = v2 then [e2] else [])"
    "getIncoming g' u =
       getIncoming g u @ (if u = v2 then [e1] else []) @ (if u = v1 then [e2] else [])"
    "getOrig g' e1 = v1" "getDest g' e1 = v2" "getWeight g' e1 = w" "getReverse g' e1 = Some e2"
    "getOrig g' e2 = v2" "getDest g' e2 = v1" "getWeight g' e2 = w" "getReverse g' e2 = Some e1"
    by (simp_all add: g' e1_def e2_def)
  show "emem g' e = emem g e" if "e \<noteq> e1" "e \<noteq> e2"
    using that by (simp add: g' e1_def e2_def setReverse_def emem_upd_edge)
qed

lemma getEdgeWeight_after_addBidirectionalEdge:
  assumes wf: "wf_graph g" and s: "findVertex s g = Some v1" and d: "findVertex d g = Some v2"
  shows "getEdgeWeight s d (snd (addBidirectionalEdge s d w g)) =
      (if \<exists>e\<in>set (getAdj g v1). getInfo g (getDest g e) = d then getEdgeWeight s d g else w)"
    and "getEdgeWeight d s (snd (addBidirectionalEdge s d w g)) =
      (if \<exists>e\<in>set (getAdj g v2). getInfo g (getDest g e) = s then getEdgeWeight d s g else w)"
proof -
  let ?g = "snd (addBidirectionalEdge s d w g)"
  note p = addBidirectionalEdge_present [OF s d]
  from wf have idx: "index_inv g" and alc: "alloc_inv g" by (simp_all add: wf_graph_def)
  from s d have v1: "v1 \<in> set (vertexSet g)" and v2: "v2 \<in> set (vertexSet g)"
    and k1: "getInfo g v1 = s" and k2: "getInfo g v2 = d"
    using index_inv_keyD [OF idx] by (auto simp: findVertex_def)
  have old: "emem ?g e = emem g e" if "v \<in> set (vertexSet g)" "e \<in> set (getAdj g v)" for e v
    using alc that by (intro p(9)) (fastforce simp: alloc_inv_def)+
  have loop_old: "getEdgeWeight_loop ?g b (getAdj g v) = getEdgeWeight_loop g b (getAdj g v)"
    if "v \<in> set (vertexSet g)" for v b
    by (rule getEdgeWeight_loop_cong) (simp_all add: p(6) old [OF that])
  have ex_old: "(\<exists>e\<in>set (getAdj g v). getInfo ?g (getDest ?g e) = b) \<longleftrightarrow>
      (\<exists>e\<in>set (getAdj g v). getInfo g (getDest g e) = b)"
    if "v \<in> set (vertexSet g)" for v b
    by (simp add: p(6) old [OF that])
  have "getEdgeWeight s d ?g = getEdgeWeight_loop ?g d (getAdj ?g v1)"
    using s by (simp add: getEdgeWeight_def findVertex_def p(3))
  also have "\<dots> = (if \<exists>e\<in>set (getAdj g v1). getInfo g (getDest g e) = d
      then getEdgeWeight_loop g d (getAdj g v1) else w)"
    unfolding p(7) getEdgeWeight_loop_append ex_old [OF v1] loop_old [OF v1]
    by (simp add: p k2)
  also have "\<dots> = (if \<exists>e\<in>set (getAdj g v1). getInfo g (getDest g e) = d
      then getEdgeWeight s d g else w)"
    using s by (simp add: getEdgeWeight_def)
  finally show sd: "getEdgeWeight s d ?g =
      (if \<exists>e\<in>set (getAdj g v1). getInfo g (getDest g e) = d then getEdgeWeight s d g else w)" .
  show "getEdgeWeight d s ?g =
      (if \<exists>e\<in>set (getAdj g v2). getInfo g (getDest g e) = s then getEdgeWeight d s g else w)"
  proof (cases "v1 = v2")
    case True
    with k1 k2 have "s = d" by simp
    with sd True show ?thesis by simp
  next
    case False
    have "getEdgeWeight d s ?g = getEdgeWeight_loop ?g s (getAdj ?g v2)"
      using d by (simp add: getEdgeWeight_def findVertex_def p(3))
    also have "\<dots> = (if \<exists>e\<in>set (getAdj g v2). getInfo g (getDest g e) = s
        then getEdgeWeight_loop g s (getAdj g v2) else w)"
      unfolding p(7) getEdgeWeight_loop_append ex_old [OF v2] loop_old [OF v2]
      using False by (simp add: p k1)
    also have "\<dots> = (if \<exists>e\<in>set (getAdj g v2). getInfo g (getDest g e) = s
        then getEdgeWeight d s g else w)"
      using d by (simp add: getEdgeWeight_def)
    finally show ?thesis .
  qed
qed

text \<open>
  C8 (as amended). On a well-formed graph with both keys present,
  \<open>addBidirectionalEdge s d w\<close> returns true and appends two new edges: \<open>e1\<close> from \<open>s\<close> to
  \<open>d\<close> and \<open>e2\<close> from \<open>d\<close> to \<open>s\<close>, both of weight \<open>w\<close>, each the reverse of the other, each
  at the end of its origin's \<open>adj\<close> and of its destination's \<open>incoming\<close>; no other edge
  changes. Afterwards \<open>getEdgeWeight s d\<close> is \<open>w\<close> if \<open>s\<close> had no edge to \<open>d\<close> before, and
  is what it was before otherwise; likewise for \<open>getEdgeWeight d s\<close>. If either key is
  absent it returns false and leaves the graph as it is.
\<close>

theorem addBidirectionalEdge_pairs_edges:
  assumes wf: "wf_graph g"
  shows "(findVertex s g = None \<or> findVertex d g = None \<longrightarrow>
            addBidirectionalEdge s d w g = (False, g)) \<and>
    (\<forall>v1 v2 g' e1 e2.
       findVertex s g = Some v1 \<and> findVertex d g = Some v2 \<and>
       g' = snd (addBidirectionalEdge s d w g) \<and> e1 = enext g \<and> e2 = Suc (enext g) \<longrightarrow>
       fst (addBidirectionalEdge s d w g) \<and>
       vertexSet g' = vertexSet g \<and> vertexMap g' = vertexMap g \<and>
       (\<forall>u. getAdj g' u =
          getAdj g u @ (if u = v1 then [e1] else []) @ (if u = v2 then [e2] else [])) \<and>
       (\<forall>u. getIncoming g' u =
          getIncoming g u @ (if u = v2 then [e1] else []) @ (if u = v1 then [e2] else [])) \<and>
       (\<forall>u\<in>set (vertexSet g). e1 \<notin> set (getAdj g u) \<and> e2 \<notin> set (getAdj g u) \<and>
          e1 \<notin> set (getIncoming g u) \<and> e2 \<notin> set (getIncoming g u)) \<and>
       (\<forall>e. e \<noteq> e1 \<and> e \<noteq> e2 \<longrightarrow> emem g' e = emem g e) \<and>
       e1 \<noteq> e2 \<and>
       getOrig g' e1 = v1 \<and> getDest g' e1 = v2 \<and> getWeight g' e1 = w \<and>
       getOrig g' e2 = v2 \<and> getDest g' e2 = v1 \<and> getWeight g' e2 = w \<and>
       getReverse g' e1 = Some e2 \<and> getReverse g' e2 = Some e1 \<and>
       getInfo g' (getOrig g' e1) = s \<and> getInfo g' (getDest g' e1) = d \<and>
       getEdgeWeight s d g' =
         (if \<exists>e\<in>set (getAdj g v1). getInfo g (getDest g e) = d
          then getEdgeWeight s d g else w) \<and>
       getEdgeWeight d s g' =
         (if \<exists>e\<in>set (getAdj g v2). getInfo g (getDest g e) = s
          then getEdgeWeight d s g else w))"
proof (intro conjI allI impI ballI)
  assume "findVertex s g = None \<or> findVertex d g = None"
  then show "addBidirectionalEdge s d w g = (False, g)" by (rule addBidirectionalEdge_absent)
next
  fix v1 v2 g' e1 e2
  assume a: "findVertex s g = Some v1 \<and> findVertex d g = Some v2 \<and>
       g' = snd (addBidirectionalEdge s d w g) \<and> e1 = enext g \<and> e2 = Suc (enext g)"
  then have s: "findVertex s g = Some v1" and d: "findVertex d g = Some v2"
    and g': "g' = snd (addBidirectionalEdge s d w g)" and e1: "e1 = enext g"
    and e2: "e2 = Suc (enext g)" by simp_all
  note p = addBidirectionalEdge_present [OF s d, where w = w]
  from wf have idx: "index_inv g" and alc: "alloc_inv g" by (simp_all add: wf_graph_def)
  from s d have k1: "getInfo g v1 = s" and k2: "getInfo g v2 = d"
    using index_inv_keyD [OF idx] by (auto simp: findVertex_def)
  show "fst (addBidirectionalEdge s d w g)" by (rule p)
  show "vertexSet g' = vertexSet g" "vertexMap g' = vertexMap g" unfolding g' by (rule p)+
  show "getAdj g' u =
      getAdj g u @ (if u = v1 then [e1] else []) @ (if u = v2 then [e2] else [])" for u
    unfolding g' e1 e2 by (rule p)
  show "getIncoming g' u =
      getIncoming g u @ (if u = v2 then [e1] else []) @ (if u = v1 then [e2] else [])" for u
    unfolding g' e1 e2 by (rule p)
  show "e1 \<notin> set (getAdj g u)" "e2 \<notin> set (getAdj g u)"
    "e1 \<notin> set (getIncoming g u)" "e2 \<notin> set (getIncoming g u)"
    if "u \<in> set (vertexSet g)" for u
    using alc that unfolding alloc_inv_def e1 e2 by fastforce+
  show "emem g' e = emem g e" if "e \<noteq> e1 \<and> e \<noteq> e2" for e
    using that p(9) unfolding g' e1 e2 by blast
  show "e1 \<noteq> e2" by (simp add: e1 e2)
  show "getOrig g' e1 = v1" "getDest g' e1 = v2" "getWeight g' e1 = w"
    "getOrig g' e2 = v2" "getDest g' e2 = v1" "getWeight g' e2 = w"
    "getReverse g' e1 = Some e2" "getReverse g' e2 = Some e1"
    unfolding g' e1 e2 by (rule p)+
  show "getInfo g' (getOrig g' e1) = s" "getInfo g' (getDest g' e1) = d"
    unfolding g' e1 e2 by (simp_all add: p k1 k2)
  show "getEdgeWeight s d g' =
      (if \<exists>e\<in>set (getAdj g v1). getInfo g (getDest g e) = d then getEdgeWeight s d g else w)"
    unfolding g' by (rule getEdgeWeight_after_addBidirectionalEdge [OF wf s d])
  show "getEdgeWeight d s g' =
      (if \<exists>e\<in>set (getAdj g v2). getInfo g (getDest g e) = s then getEdgeWeight d s g else w)"
    unfolding g' by (rule getEdgeWeight_after_addBidirectionalEdge [OF wf s d])
qed

lemma reachable_graph_max: "reachable graph_max"
  unfolding graph_max_def
  by (intro reachable_addEdges reachable_addVertices reachable_empty_graph)

theorem addBidirectionalEdge_pairs_edges_witness:
  "fst (addBidirectionalEdge 1 3 4 graph_S1) \<and>
   getAdj (snd (addBidirectionalEdge 1 3 4 graph_S1)) 0 = [0, 1, 3] \<and>
   getAdj (snd (addBidirectionalEdge 1 3 4 graph_S1)) 2 = [4] \<and>
   getReverse (snd (addBidirectionalEdge 1 3 4 graph_S1)) 3 = Some 4 \<and>
   getReverse (snd (addBidirectionalEdge 1 3 4 graph_S1)) 4 = Some 3 \<and>
   getEdgeWeight 1 3 (snd (addBidirectionalEdge 1 3 4 graph_S1)) = 4 \<and>
   getEdgeWeight 3 1 (snd (addBidirectionalEdge 1 3 4 graph_S1)) = 4"
proof -
  have wf: "wf_graph graph_S1" by (rule reachable_wf_graph [OF reachable_graph_S1])
  have s: "findVertex 1 graph_S1 = Some 0" and d: "findVertex 3 graph_S1 = Some 2"
    and n: "enext graph_S1 = 3"
    and a: "getAdj graph_S1 0 = [0, 1]" "getAdj graph_S1 2 = []"
    and k: "getInfo graph_S1 (getDest graph_S1 0) = 2" "getInfo graph_S1 (getDest graph_S1 1) = 2"
    by (simp_all add: graph_S1_def build_defs)
  from addBidirectionalEdge_pairs_edges [OF wf, of 1 3 4] s d n a k
  show ?thesis by (simp add: eval_nat_numeral)
qed

text \<open>
  C8 as stated fails: \<open>graph_one_edge\<close> already has an edge from key 1 to key 2, of
  weight 1. After \<open>addBidirectionalEdge 1 2 3\<close> the lookup from 1 to 2 still returns 1,
  the weight of the first edge, and not 3.
\<close>

theorem addBidirectionalEdge_weight_counterexample:
  "findVertex 1 graph_one_edge = Some 0 \<and> findVertex 2 graph_one_edge = Some 1 \<and>
   fst (addBidirectionalEdge 1 2 3 graph_one_edge) \<and>
   getEdgeWeight 1 2 (snd (addBidirectionalEdge 1 2 3 graph_one_edge)) = 1"
  by (simp add: graph_one_edge_def build_defs addBidirectionalEdge_def getEdgeWeight_def
      setReverse_def upd_edge_def)

section \<open>Removing a vertex\<close>

text \<open>
  C6. On a well-formed graph \<open>removeVertex k\<close> returns false exactly when \<open>k\<close> is absent
  (and then changes nothing). When \<open>k\<close> names the vertex \<open>v\<close>, the vertex leaves the
  sequence and the index, every remaining vertex keeps exactly its edges that do not
  end at \<open>v\<close> and its incoming entries that do not start at \<open>v\<close>; afterwards
  \<open>findVertex k\<close> finds nothing and no \<open>adj\<close> or \<open>incoming\<close> entry of the graph has an end
  point with key \<open>k\<close>. The graph stays well formed.
\<close>

theorem removeVertex_removes:
  assumes wf: "wf_graph g"
  shows "(fst (removeVertex k g) \<longleftrightarrow> findVertex k g \<noteq> None) \<and>
    (findVertex k g = None \<longrightarrow> snd (removeVertex k g) = g) \<and>
    findVertex k (snd (removeVertex k g)) = None \<and>
    (\<forall>v g'. findVertex k g = Some v \<and> g' = snd (removeVertex k g) \<longrightarrow>
       vertexSet g' = removeAll v (vertexSet g) \<and> v \<notin> set (vertexSet g') \<and>
       vertexMap g' = (vertexMap g)(k := None) \<and>
       (\<forall>u\<in>set (vertexSet g').
          getInfo g' u = getInfo g u \<and>
          getAdj g' u = filter (\<lambda>e. getDest g e \<noteq> v) (getAdj g u) \<and>
          getIncoming g' u = filter (\<lambda>e. getOrig g e \<noteq> v) (getIncoming g u) \<and>
          (\<forall>e\<in>set (getAdj g' u) \<union> set (getIncoming g' u).
             getInfo g' (getOrig g' e) \<noteq> k \<and> getInfo g' (getDest g' e) \<noteq> k))) \<and>
    wf_graph (snd (removeVertex k g))"
proof (cases "vertexMap g k")
  case None
  with wf show ?thesis
    by (simp add: findVertex_def removeVertex_absent)
next
  case (Some v)
  let ?g = "snd (removeVertex k g)"
  note p = removeVertex_present [OF wf Some]
  from wf have idx: "index_inv g" by (simp add: wf_graph_def)
  from Some have v: "v \<in> set (vertexSet g)" and kv: "getInfo g v = k"
    using index_inv_keyD [OF idx] by blast+
  have wf': "wf_graph ?g" using wf by (rule wf_graph_removeVertex)
  then have idx': "index_inv ?g" and lnk': "links_inv ?g" by (simp_all add: wf_graph_def)
  have V: "set (vertexSet ?g) = set (vertexSet g) - {v}" by (auto simp: p(2))
  have nokey: "getInfo ?g u \<noteq> k" if "u \<in> set (vertexSet ?g)" for u
    using that index_inv_inj [OF idx _ v, of u] kv by (auto simp: V p(7))
  have per_vertex: "getInfo ?g u = getInfo g u \<and>
      getAdj ?g u = filter (\<lambda>e. getDest g e \<noteq> v) (getAdj g u) \<and>
      getIncoming ?g u = filter (\<lambda>e. getOrig g e \<noteq> v) (getIncoming g u) \<and>
      (\<forall>e\<in>set (getAdj ?g u) \<union> set (getIncoming ?g u).
         getInfo ?g (getOrig ?g e) \<noteq> k \<and> getInfo ?g (getDest ?g e) \<noteq> k)"
    if u: "u \<in> set (vertexSet ?g)" for u
  proof -
    from u have u': "u \<in> set (vertexSet g)" and uv: "u \<noteq> v" by (simp_all add: V)
    have "\<forall>e\<in>set (getAdj ?g u) \<union> set (getIncoming ?g u).
        getInfo ?g (getOrig ?g e) \<noteq> k \<and> getInfo ?g (getDest ?g e) \<noteq> k"
    proof
      fix e assume "e \<in> set (getAdj ?g u) \<union> set (getIncoming ?g u)"
      then have "getOrig ?g e \<in> set (vertexSet ?g) \<and> getDest ?g e \<in> set (vertexSet ?g)"
        using links_inv_adjD [OF lnk' u, of e] links_inv_incomingD [OF lnk' u, of e] u by auto
      then show "getInfo ?g (getOrig ?g e) \<noteq> k \<and> getInfo ?g (getDest ?g e) \<noteq> k"
        using nokey by blast
    qed
    then show ?thesis using uv by (simp add: p(7) p(8) [OF u'] p(9) [OF u' uv])
  qed
  have "fst (removeVertex k g) \<longleftrightarrow> findVertex k g \<noteq> None"
    using p(1) Some by (simp add: findVertex_def)
  moreover have "findVertex k g = None \<longrightarrow> ?g = g" using Some by (simp add: findVertex_def)
  moreover have "findVertex k ?g = None" by (simp add: findVertex_def p(3))
  moreover have "\<forall>v' g'. findVertex k g = Some v' \<and> g' = ?g \<longrightarrow>
       vertexSet g' = removeAll v' (vertexSet g) \<and> v' \<notin> set (vertexSet g') \<and>
       vertexMap g' = (vertexMap g)(k := None) \<and>
       (\<forall>u\<in>set (vertexSet g').
          getInfo g' u = getInfo g u \<and>
          getAdj g' u = filter (\<lambda>e. getDest g e \<noteq> v') (getAdj g u) \<and>
          getIncoming g' u = filter (\<lambda>e. getOrig g e \<noteq> v') (getIncoming g u) \<and>
          (\<forall>e\<in>set (getAdj g' u) \<union> set (getIncoming g' u).
             getInfo g' (getOrig g' e) \<noteq> k \<and> getInfo g' (getDest g' e) \<noteq> k))"
    using Some per_vertex by (simp add: findVertex_def p(2) p(3))
  ultimately show ?thesis using wf' by blast
qed

theorem removeVertex_removes_witness:
  "fst (removeVertex 2 graph_S1) \<and> \<not> fst (removeVertex 7 graph_S1) \<and>
   findVertex 2 (snd (removeVertex 2 graph_S1)) = None \<and>
   vertexSet (snd (removeVertex 2 graph_S1)) = [0, 2] \<and>
   getAdj (snd (removeVertex 2 graph_S1)) 0 = [] \<and>
   getIncoming (snd (removeVertex 2 graph_S1)) 2 = [] \<and>
   getEdgeWeight 1 2 (snd (removeVertex 2 graph_S1)) = DBL_MAX"
proof -
  let ?g = "snd (removeVertex 2 graph_S1)"
  have wf: "wf_graph graph_S1" by (rule reachable_wf_graph [OF reachable_graph_S1])
  have f: "findVertex 2 graph_S1 = Some 1" "findVertex 7 graph_S1 = None"
    and vs: "vertexSet graph_S1 = [0, 1, 2]"
    and a: "getAdj graph_S1 0 = [0, 1]" "getIncoming graph_S1 2 = [2]"
    and d: "getDest graph_S1 0 = 1" "getDest graph_S1 1 = 1" "getOrig graph_S1 2 = 1"
    and m: "vertexMap graph_S1 1 = Some 0"
    by (simp_all add: graph_S1_def build_defs)
  from removeVertex_removes [OF wf, of 2] f(1) vs a d
  have 1: "fst (removeVertex 2 graph_S1)" "findVertex 2 ?g = None" "vertexSet ?g = [0, 2]"
    "getAdj ?g 0 = []" "getIncoming ?g 2 = []" "vertexMap ?g = (vertexMap graph_S1)(2 := None)"
    by simp_all
  from removeVertex_removes [OF wf, of 7] f(2)
  have 2: "\<not> fst (removeVertex 7 graph_S1)" by simp
  have 3: "getEdgeWeight 1 2 ?g = DBL_MAX"
    by (simp add: getEdgeWeight_def findVertex_def 1 m)
  from 1 2 3 show ?thesis by simp
qed

section \<open>Depth-first search: the recursive visit returns\<close>

lemma dfsVisit_rec_Inl:
  "dfsVisit_rec (Inl v) g res =
     dfsVisit_rec (Inr (getAdj g v)) (setVisited v True g) (res @ [getInfo g v])"
  by (subst dfsVisit_rec.simps) simp

lemma dfsVisit_rec_Nil: "dfsVisit_rec (Inr []) g res = Some (res, g)"
  by (subst dfsVisit_rec.simps) simp

lemma dfsVisit_rec_Cons:
  "dfsVisit_rec (Inr (e # es)) g res =
     (if \<not> isVisited g (getDest g e)
      then Option.bind (dfsVisit_rec (Inl (getDest g e)) g res)
             (\<lambda>(res', g'). dfsVisit_rec (Inr es) g' res')
      else dfsVisit_rec (Inr es) g res)"
  by (subst dfsVisit_rec.simps) (simp add: Let_def)

lemma preorder_props:
  "preorder succ S ws r \<Longrightarrow> distinct r \<and> set r \<inter> S = {} \<and> set ws \<subseteq> S \<union> set r"
  by (induction rule: preorder.induct) auto

lemma preorder_closed:
  "preorder succ S ws r \<Longrightarrow> set ws \<subseteq> V \<Longrightarrow> (\<And>v. v \<in> V \<Longrightarrow> set (succ v) \<subseteq> V) \<Longrightarrow>
   set r \<subseteq> V"
  by (induction rule: preorder.induct) auto

lemma same_structure_succs: "same_structure g g' \<Longrightarrow> succs g' = succs g"
  by (auto simp: succs_def same_structure_fields)

lemma same_structure_unvisited:
  "same_structure g g' \<Longrightarrow> {u. isVisited g' u} = {u. isVisited g u} \<union> N \<Longrightarrow>
   unvisited g' = unvisited g - N"
  by (auto simp: unvisited_def same_structure_fields)

lemma finite_unvisited [simp]: "finite (unvisited g)"
  by (simp add: unvisited_def)

lemma links_inv_succs:
  "links_inv g \<Longrightarrow> v \<in> set (vertexSet g) \<Longrightarrow> set (succs g v) \<subseteq> set (vertexSet g)"
  by (auto simp: succs_def dest: links_inv_adjD)

lemma preorder_append:
  "preorder succ S ws1 r1 \<Longrightarrow> preorder succ (S \<union> set r1) ws2 r2 \<Longrightarrow>
   preorder succ S (ws1 @ ws2) (r1 @ r2)"
proof (induction arbitrary: ws2 r2 rule: preorder.induct)
  case (nil S)
  then show ?case by simp
next
  case (skip w S ws r)
  then show ?case by (auto intro: preorder.skip)
next
  case (visit w S r1 ws r2')
  have "insert w S \<union> set r1 \<union> set r2' = S \<union> set (w # r1 @ r2')" by auto
  with visit.prems have "preorder succ (insert w S \<union> set r1 \<union> set r2') ws2 r2" by simp
  then have "preorder succ (insert w S \<union> set r1) (ws @ ws2) (r2' @ r2)" by (rule visit.IH)
  with visit.hyps(1,2) have "preorder succ S (w # ws @ ws2) (w # r1 @ r2' @ r2)"
    by (rule preorder.visit)
  then show ?case by simp
qed

lemma dfs_post_refl: "dfs_post g res [] [] (res, g)"
  by (simp add: dfs_post_def preorder.nil)

lemma dfs_post_skip:
  "isVisited g w \<Longrightarrow> dfs_post g res ws new y \<Longrightarrow> dfs_post g res (w # ws) new y"
  by (auto simp: dfs_post_def intro: preorder.skip)

lemma dfs_post_trans:
  assumes 1: "dfs_post g res ws1 new1 (r1, g1)" and 2: "dfs_post g1 r1 ws2 new2 y"
  shows "dfs_post g res (ws1 @ ws2) (new1 @ new2) y"
proof -
  obtain res' g' where y: "y = (res', g')" by force
  from 1 have s1: "same_structure g g1" and r1: "r1 = res @ map (getInfo g) new1"
    and p1: "preorder (succs g) {u. isVisited g u} ws1 new1"
    and v1: "{u. isVisited g1 u} = {u. isVisited g u} \<union> set new1"
    by (simp_all add: dfs_post_def)
  from 2 have s2: "same_structure g1 g'" and r2: "res' = r1 @ map (getInfo g1) new2"
    and p2: "preorder (succs g1) {u. isVisited g1 u} ws2 new2"
    and v2: "{u. isVisited g' u} = {u. isVisited g1 u} \<union> set new2"
    by (simp_all add: dfs_post_def y)
  have "same_structure g g'" using s1 s2 by (rule same_structure_trans)
  moreover have "res' = res @ map (getInfo g) (new1 @ new2)"
    by (simp add: r2 r1 same_structure_fields [OF s1] cong: map_cong)
  moreover have "preorder (succs g) {u. isVisited g u} (ws1 @ ws2) (new1 @ new2)"
    using p1 p2 by (intro preorder_append) (simp_all add: same_structure_succs [OF s1] v1)
  moreover have "{u. isVisited g' u} = {u. isVisited g u} \<union> set (new1 @ new2)"
    by (auto simp: v2 v1)
  ultimately show ?thesis by (simp add: dfs_post_def y)
qed

lemma dfs_post_call:
  assumes w: "\<not> isVisited g w"
    and 1: "dfs_post (setVisited w True g) (res @ [getInfo g w]) (succs g w) new y"
  shows "dfs_post g res [w] (w # new) y"
proof -
  obtain res' g' where y: "y = (res', g')" by force
  let ?g0 = "setVisited w True g"
  have s0: "same_structure g ?g0" by simp
  from 1 have s1: "same_structure ?g0 g'" and r1: "res' = (res @ [getInfo g w]) @ map (getInfo ?g0) new"
    and p1: "preorder (succs ?g0) {u. isVisited ?g0 u} (succs g w) new"
    and v1: "{u. isVisited g' u} = {u. isVisited ?g0 u} \<union> set new"
    by (simp_all add: dfs_post_def y)
  have vis0: "{u. isVisited ?g0 u} = insert w {u. isVisited g u}" by auto
  have "same_structure g g'" using s0 s1 by (rule same_structure_trans)
  moreover have "res' = res @ map (getInfo g) (w # new)" by (simp add: r1)
  moreover have "preorder (succs g) {u. isVisited g u} [w] (w # new @ [])"
  proof (rule preorder.visit)
    show "w \<notin> {u. isVisited g u}" using w by simp
    show "preorder (succs g) (insert w {u. isVisited g u}) (succs g w) new"
      using p1 unfolding vis0 same_structure_succs [OF s0] .
    show "preorder (succs g) (insert w {u. isVisited g u} \<union> set new) [] []"
      by (rule preorder.nil)
  qed
  moreover have "{u. isVisited g' u} = {u. isVisited g u} \<union> set (w # new)"
    by (auto simp: v1 vis0)
  ultimately show ?thesis by (simp add: dfs_post_def y)
qed

text \<open>
  The loop of \<^verbatim>\<open>dfsVisit\<close> returns, given that calls of \<^verbatim>\<open>dfsVisit\<close> on graphs with at most
  \<open>n\<close> unmarked vertices return.
\<close>

lemma dfsVisit_adj_total:
  assumes call: "\<And>v g res. links_inv g \<Longrightarrow> v \<in> unvisited g \<Longrightarrow> card (unvisited g) \<le> n \<Longrightarrow>
      \<exists>y new. dfsVisit_rec (Inl v) g res = Some y \<and> dfs_post g res [v] new y"
  shows "links_inv g \<Longrightarrow> card (unvisited g) \<le> n \<Longrightarrow>
    \<forall>e\<in>set es. getDest g e \<in> set (vertexSet g) \<Longrightarrow>
    \<exists>y new. dfsVisit_rec (Inr es) g res = Some y \<and> dfs_post g res (map (getDest g) es) new y"
proof (induction es arbitrary: g res)
  case Nil
  show ?case by (auto simp: dfsVisit_rec_Nil intro: dfs_post_refl)
next
  case (Cons e es)
  let ?w = "getDest g e"
  show ?case
  proof (cases "isVisited g ?w")
    case True
    from Cons.IH [OF Cons.prems(1,2), of res] Cons.prems(3)
    obtain y new where "dfsVisit_rec (Inr es) g res = Some y"
      "dfs_post g res (map (getDest g) es) new y" by auto
    with True show ?thesis by (auto simp: dfsVisit_rec_Cons intro: dfs_post_skip)
  next
    case False
    with Cons.prems(3) have w: "?w \<in> unvisited g" by (simp add: unvisited_def)
    from call [OF Cons.prems(1) w Cons.prems(2), of res]
    obtain r1 g1 new1 where run1: "dfsVisit_rec (Inl ?w) g res = Some (r1, g1)"
      and post1: "dfs_post g res [?w] new1 (r1, g1)" by auto
    from post1 have s1: "same_structure g g1"
      and v1: "{u. isVisited g1 u} = {u. isVisited g u} \<union> set new1"
      by (simp_all add: dfs_post_def)
    note f1 = same_structure_fields [OF s1]
    have "unvisited g1 \<subseteq> unvisited g"
      by (auto simp: same_structure_unvisited [OF s1 v1])
    then have "card (unvisited g1) \<le> card (unvisited g)" by (intro card_mono) simp_all
    with Cons.prems(2) have c1: "card (unvisited g1) \<le> n" by simp
    have l1: "links_inv g1" using Cons.prems(1) by (simp add: same_structure_links_inv [OF s1])
    have d1: "\<forall>e\<in>set es. getDest g1 e \<in> set (vertexSet g1)"
      using Cons.prems(3) by (simp add: f1)
    from Cons.IH [OF l1 c1 d1, of r1]
    obtain y new2 where run2: "dfsVisit_rec (Inr es) g1 r1 = Some y"
      and post2: "dfs_post g1 r1 (map (getDest g1) es) new2 y" by auto
    have "dfsVisit_rec (Inr (e # es)) g res = Some y"
      using False run1 run2 by (simp add: dfsVisit_rec_Cons)
    moreover have "dfs_post g res (map (getDest g) (e # es)) (new1 @ new2) y"
      using dfs_post_trans [OF post1 post2] by (simp add: f1)
    ultimately show ?thesis by blast
  qed
qed

lemma dfsVisit_call_total:
  "links_inv g \<Longrightarrow> v \<in> unvisited g \<Longrightarrow> card (unvisited g) \<le> n \<Longrightarrow>
   \<exists>y new. dfsVisit_rec (Inl v) g res = Some y \<and> dfs_post g res [v] new y"
proof (induction n arbitrary: v g res)
  case 0
  then show ?case by simp
next
  case (Suc n)
  let ?g0 = "setVisited v True g"
  have s0: "same_structure g ?g0" by simp
  from Suc.prems(2) have v: "v \<in> set (vertexSet g)" and nv: "\<not> isVisited g v"
    by (simp_all add: unvisited_def)
  have "unvisited ?g0 = unvisited g - {v}" by (auto simp: unvisited_def)
  with Suc.prems(2,3) have c0: "card (unvisited ?g0) \<le> n" by simp
  have l0: "links_inv ?g0" using Suc.prems(1) by (simp add: same_structure_links_inv [OF s0])
  have d0: "\<forall>e\<in>set (getAdj g v). getDest ?g0 e \<in> set (vertexSet ?g0)"
    using links_inv_adjD [OF Suc.prems(1) v] by simp
  from dfsVisit_adj_total [where n = n and g = ?g0 and es = "getAdj g v"
      and res = "res @ [getInfo g v]", OF Suc.IH l0 c0 d0]
  obtain y new where run: "dfsVisit_rec (Inr (getAdj g v)) ?g0 (res @ [getInfo g v]) = Some y"
    and post: "dfs_post ?g0 (res @ [getInfo g v]) (map (getDest ?g0) (getAdj g v)) new y"
    by blast
  from post have "dfs_post ?g0 (res @ [getInfo g v]) (succs g v) new y"
    by (simp add: succs_def)
  with nv have "dfs_post g res [v] (v # new) y" by (rule dfs_post_call)
  with run show ?case by (auto simp: dfsVisit_rec_Inl)
qed

section \<open>Depth-first search visits every vertex once\<close>

lemma isVisited_fold_setVisited:
  "isVisited (fold (\<lambda>v. setVisited v b) vs g) u = (if u \<in> set vs then b else isVisited g u)"
  by (induction vs arbitrary: g) auto

lemma isVisited_resetVisited:
  "isVisited (resetVisited g) u = (if u \<in> set (vertexSet g) then False else isVisited g u)"
  by (simp add: resetVisited_def isVisited_fold_setVisited)

lemma preorder_outside:
  "preorder succ S ws r \<Longrightarrow> set ws \<subseteq> V \<Longrightarrow> (\<And>v. v \<in> V \<Longrightarrow> set (succ v) \<subseteq> V) \<Longrightarrow>
   S \<inter> V = S' \<inter> V \<Longrightarrow> preorder succ S' ws r"
proof (induction arbitrary: S' rule: preorder.induct)
  case (nil S)
  show ?case by (rule preorder.nil)
next
  case (skip w S ws r)
  from skip.prems(1,3) skip.hyps(1) have "w \<in> S'" by auto
  moreover have "preorder succ S' ws r" using skip.prems by (intro skip.IH) auto
  ultimately show ?case by (rule preorder.skip)
next
  case (visit w S r1 ws r2)
  from visit.prems(1,3) visit.hyps(1) have w: "w \<notin> S'" "w \<in> V" by auto
  have 1: "preorder succ (insert w S') (succ w) r1"
    using visit.prems w by (intro visit.IH(1)) auto
  have 2: "preorder succ (insert w S' \<union> set r1) ws r2"
    using visit.prems w by (intro visit.IH(2)) auto
  from w(1) 1 2 show ?case by (rule preorder.visit)
qed

lemma dfs_loop_total:
  "links_inv g \<Longrightarrow> set vs \<subseteq> set (vertexSet g) \<Longrightarrow>
   \<exists>y new. dfs_loop vs g res = Some y \<and> dfs_post g res vs new y"
proof (induction vs arbitrary: g res)
  case Nil
  show ?case by (auto intro: dfs_post_refl)
next
  case (Cons v vs)
  show ?case
  proof (cases "isVisited g v")
    case True
    from Cons.IH [OF Cons.prems(1), of res] Cons.prems(2)
    obtain y new where "dfs_loop vs g res = Some y" "dfs_post g res vs new y" by auto
    with True show ?thesis by (auto intro: dfs_post_skip)
  next
    case False
    with Cons.prems(2) have v: "v \<in> unvisited g" by (simp add: unvisited_def)
    from dfsVisit_call_total [OF Cons.prems(1) v order_refl, of res]
    obtain r1 g1 new1 where run1: "dfsVisit v g res = Some (r1, g1)"
      and post1: "dfs_post g res [v] new1 (r1, g1)" by (auto simp: dfsVisit_def)
    from post1 have s1: "same_structure g g1" by (simp add: dfs_post_def)
    have l1: "links_inv g1" using Cons.prems(1) by (simp add: same_structure_links_inv [OF s1])
    have "set vs \<subseteq> set (vertexSet g1)"
      using Cons.prems(2) by (simp add: same_structure_fields [OF s1])
    from Cons.IH [OF l1 this, of r1]
    obtain y new2 where run2: "dfs_loop vs g1 r1 = Some y" and post2: "dfs_post g1 r1 vs new2 y"
      by auto
    have "dfs_loop (v # vs) g res = Some y" using False run1 run2 by simp
    moreover have "dfs_post g res (v # vs) (new1 @ new2) y"
      using dfs_post_trans [OF post1 post2] by simp
    ultimately show ?thesis by blast
  qed
qed

lemma dfs_total:
  assumes wf: "wf_graph g"
  shows "\<exists>order g'. dfs g = Some (map (getInfo g) order, g') \<and> same_structure g g' \<and>
    preorder (succs g) {} (vertexSet g) order \<and> distinct order \<and>
    set order = set (vertexSet g)"
proof -
  from wf have idx: "index_inv g" and lnk: "links_inv g" by (simp_all add: wf_graph_def)
  let ?g0 = "resetVisited g"
  let ?V = "set (vertexSet g)"
  have s0: "same_structure g ?g0" by simp
  note f0 = same_structure_fields [OF s0]
  have l0: "links_inv ?g0" using lnk by (simp add: same_structure_links_inv [OF s0])
  from dfs_loop_total [OF l0 subset_refl, of "[]"]
  obtain res g' new where run: "dfs_loop (vertexSet ?g0) ?g0 [] = Some (res, g')"
    and post: "dfs_post ?g0 [] (vertexSet ?g0) new (res, g')" by auto
  from post have s1: "same_structure ?g0 g'" and res: "res = map (getInfo ?g0) new"
    and p: "preorder (succs ?g0) {u. isVisited ?g0 u} (vertexSet ?g0) new"
    by (simp_all add: dfs_post_def)
  have closed: "\<And>v. v \<in> ?V \<Longrightarrow> set (succs g v) \<subseteq> ?V" using lnk by (rule links_inv_succs)
  have e: "{u. isVisited ?g0 u} \<inter> ?V = {} \<inter> ?V" by (auto simp: isVisited_resetVisited)
  from p have "preorder (succs g) {u. isVisited ?g0 u} (vertexSet g) new"
    by (simp only: same_structure_succs [OF s0] f0)
  then have p': "preorder (succs g) {} (vertexSet g) new"
    by (rule preorder_outside [OF _ subset_refl closed e])
  from preorder_props [OF p'] preorder_closed [OF p' subset_refl closed]
  have "distinct new" "set new = ?V" by auto
  moreover have "dfs g = Some (map (getInfo g) new, g')"
    using run by (simp add: dfs_def Let_def res f0 cong: map_cong)
  moreover have "same_structure g g'" using s0 s1 by (rule same_structure_trans)
  ultimately show ?thesis using p' by blast
qed

lemma reachable_graph_S3: "reachable graph_S3"
  unfolding graph_S3_def
  by (intro reachable_addEdges reachable_addVertices reachable_empty_graph)

lemma reachable_graph_S4: "reachable graph_S4"
  unfolding graph_S4_def
  by (intro reachable_addEdges reachable_addVertices reachable_empty_graph)

lemma reachable_graph_S5: "reachable graph_S5"
  unfolding graph_S5_def by (intro reachable_addEdges reachable_graph_S4)

text \<open>
  C9. On a well-formed graph \<open>dfs()\<close> returns. Its result lists the keys of the
  vertices in the order \<open>order\<close>, which is the concatenation of the depth-first
  pre-order traversals rooted at the vertices of the sequence, in insertion order,
  skipping the vertices already met; \<open>order\<close> is a permutation of the vertex sequence,
  so the result is a permutation of the keys of the graph and no key occurs twice.
\<close>

theorem dfs_permutation:
  assumes wf: "wf_graph g"
  shows "\<exists>order g'. dfs g = Some (map (getInfo g) order, g') \<and>
    preorder (succs g) {} (vertexSet g) order \<and>
    mset order = mset (vertexSet g) \<and>
    mset (map (getInfo g) order) = mset (map (getInfo g) (vertexSet g)) \<and>
    distinct (map (getInfo g) order)"
proof -
  from wf have idx: "index_inv g" by (simp add: wf_graph_def)
  from dfs_total [OF wf] obtain order g' where run: "dfs g = Some (map (getInfo g) order, g')"
    and p: "preorder (succs g) {} (vertexSet g) order" and d: "distinct order"
    and s: "set order = set (vertexSet g)" by blast
  from d s index_inv_distinct [OF idx] have m: "mset order = mset (vertexSet g)"
    by (simp add: set_eq_iff_mset_eq_distinct)
  then have mk: "mset (map (getInfo g) order) = mset (map (getInfo g) (vertexSet g))"
    by (metis mset_map)
  have "distinct (map (getInfo g) (vertexSet g))" using idx by (simp add: index_inv_def)
  with mk have "distinct (map (getInfo g) order)" by (metis mset_eq_imp_distinct_iff)
  with run p m mk show ?thesis by blast
qed

theorem dfs_permutation_witness:
  "(\<exists>order g'. dfs graph_S3 = Some (map (getInfo graph_S3) order, g') \<and>
      preorder (succs graph_S3) {} (vertexSet graph_S3) order \<and>
      mset order = mset (vertexSet graph_S3) \<and>
      mset (map (getInfo graph_S3) order) = mset (map (getInfo graph_S3) (vertexSet graph_S3)) \<and>
      distinct (map (getInfo graph_S3) order)) \<and>
   map_option fst (dfs graph_S3) = Some [1, 2, 4, 3, 5]"
proof
  show "\<exists>order g'. dfs graph_S3 = Some (map (getInfo graph_S3) order, g') \<and>
      preorder (succs graph_S3) {} (vertexSet graph_S3) order \<and>
      mset order = mset (vertexSet graph_S3) \<and>
      mset (map (getInfo graph_S3) order) = mset (map (getInfo graph_S3) (vertexSet graph_S3)) \<and>
      distinct (map (getInfo graph_S3) order)"
    by (rule dfs_permutation [OF reachable_wf_graph [OF reachable_graph_S3]])
  show "map_option fst (dfs graph_S3) = Some [1, 2, 4, 3, 5]" by code_simp
qed

section \<open>Cycle detection: the recursive search\<close>

lemma dfsIsDAG_rec_Inl:
  "dfsIsDAG_rec (Inl v) g =
     dfsIsDAG_rec (Inr (v, getAdj g v)) (setProcesssing v True (setVisited v True g))"
  by (subst dfsIsDAG_rec.simps) simp

lemma dfsIsDAG_rec_Nil: "dfsIsDAG_rec (Inr (v, [])) g = Some (True, setProcesssing v False g)"
  by (subst dfsIsDAG_rec.simps) simp

lemma dfsIsDAG_rec_Cons:
  "dfsIsDAG_rec (Inr (v, e # es)) g =
     (if isProcessing g (getDest g e) then Some (False, g)
      else if \<not> isVisited g (getDest g e)
      then Option.bind (dfsIsDAG_rec (Inl (getDest g e)) g)
             (\<lambda>(b, g'). if \<not> b then Some (False, g') else dfsIsDAG_rec (Inr (v, es)) g')
      else dfsIsDAG_rec (Inr (v, es)) g)"
  by (subst dfsIsDAG_rec.simps) (simp add: Let_def)

lemma edge_relI:
  "u \<in> set (vertexSet g) \<Longrightarrow> e \<in> set (getAdj g u) \<Longrightarrow> (u, getDest g e) \<in> edge_rel g"
  by (auto simp: edge_rel_def)

lemma edge_relE:
  assumes "(u, w) \<in> edge_rel g"
  obtains e where "u \<in> set (vertexSet g)" "e \<in> set (getAdj g u)" "w = getDest g e"
  using assms by (auto simp: edge_rel_def)

lemma edge_rel_closed:
  "links_inv g \<Longrightarrow> (u, w) \<in> edge_rel g \<Longrightarrow> u \<in> set (vertexSet g) \<and> w \<in> set (vertexSet g)"
  by (auto elim!: edge_relE dest: links_inv_adjD)

lemma closed_trancl:
  assumes "\<forall>u\<in>B. \<forall>w. (u, w) \<in> E \<longrightarrow> w \<in> B"
  shows "(u, x) \<in> E\<^sup>+ \<Longrightarrow> u \<in> B \<Longrightarrow> x \<in> B"
  by (induction rule: trancl_induct) (use assms in blast)+

lemma same_structure_colours:
  assumes "same_structure g g'"
  shows "gray g' = {u \<in> set (vertexSet g). isProcessing g' u}"
    "black g' = {u \<in> set (vertexSet g). isVisited g' u \<and> \<not> isProcessing g' u}"
    "unvisited g' = {u \<in> set (vertexSet g). \<not> isVisited g' u}"
  by (simp_all add: gray_def black_def unvisited_def same_structure_fields [OF assms])

text \<open>A vertex whose successors are all black joins the black vertices.\<close>

lemma dag_inv_finish:
  assumes inv: "dag_inv g" and v: "v \<in> gray g"
    and succ: "\<forall>e\<in>set (getAdj g v). getDest g e \<in> black g"
  shows "dag_done g v (setProcesssing v False g)"
proof -
  let ?g = "setProcesssing v False g"
  let ?E = "edge_rel g"
  have s: "same_structure g ?g" by simp
  from inv have lnk: "links_inv g"
    and vis: "\<forall>u\<in>set (vertexSet g). isProcessing g u \<longrightarrow> isVisited g u"
    and closed: "\<forall>u\<in>black g. \<forall>w. (u, w) \<in> ?E \<longrightarrow> w \<in> black g"
    and acyc: "\<forall>u\<in>black g. (u, u) \<notin> ?E\<^sup>+"
    by (simp_all add: dag_inv_def)
  from v have vV: "v \<in> set (vertexSet g)" and vp: "isProcessing g v" by (simp_all add: gray_def)
  with vis have vv: "isVisited g v" by blast
  have b: "black ?g = insert v (black g)" using vV vv by (auto simp: black_def)
  have gr: "gray ?g = gray g - {v}" by (auto simp: gray_def)
  have vnb: "v \<notin> black g" using vp by (simp add: black_def)
  have E: "edge_rel ?g = ?E" by (rule same_structure_edge_rel [OF s])
  have succ_v: "w \<in> black g" if "(v, w) \<in> ?E" for w
    using that succ by (auto elim!: edge_relE)
  have closed': "\<forall>u\<in>black ?g. \<forall>w. (u, w) \<in> ?E \<longrightarrow> w \<in> black ?g"
    using closed succ_v by (auto simp: b)
  have "(v, v) \<notin> ?E\<^sup>+"
  proof
    assume "(v, v) \<in> ?E\<^sup>+"
    then obtain w where w: "(v, w) \<in> ?E" and wv: "(w, v) \<in> ?E\<^sup>*" by (blast dest: tranclD)
    from w have wb: "w \<in> black g" by (rule succ_v)
    from wv have "w = v \<or> (w, v) \<in> ?E\<^sup>+" by (auto simp: rtrancl_eq_or_trancl)
    then show False
    proof
      assume "w = v" with wb vnb show False by simp
    next
      assume "(w, v) \<in> ?E\<^sup>+"
      from closed_trancl [OF closed this wb] vnb show False by simp
    qed
  qed
  with acyc have acyc': "\<forall>u\<in>black ?g. (u, u) \<notin> ?E\<^sup>+" by (simp add: b)
  have "dag_inv ?g"
    unfolding dag_inv_def E using lnk vis closed' acyc'
    by (simp add: same_structure_links_inv [OF s])
  moreover have "unvisited ?g \<subseteq> unvisited g" by (auto simp: unvisited_def)
  ultimately show ?thesis using s gr b by (auto simp: dag_done_def)
qed

text \<open>Entering a vertex keeps the invariant: the vertex turns grey.\<close>

lemma dag_inv_enter:
  assumes inv: "dag_inv g" and v: "v \<in> unvisited g"
  defines "g0 \<equiv> setProcesssing v True (setVisited v True g)"
  shows "dag_inv g0" "gray g0 = insert v (gray g)" "black g0 = black g"
    "unvisited g0 = unvisited g - {v}" "same_structure g g0" "v \<notin> gray g"
proof -
  from inv have lnk: "links_inv g"
    and vis: "\<forall>u\<in>set (vertexSet g). isProcessing g u \<longrightarrow> isVisited g u"
    by (simp_all add: dag_inv_def)
  from v have vV: "v \<in> set (vertexSet g)" and nv: "\<not> isVisited g v"
    by (simp_all add: unvisited_def)
  show s: "same_structure g g0"
    unfolding g0_def by (blast intro: same_structure_trans same_structure_setVisited
        same_structure_setProcesssing)
  show gr: "gray g0 = insert v (gray g)" using vV by (auto simp: gray_def g0_def)
  show b: "black g0 = black g" using nv by (auto simp: black_def g0_def)
  show "unvisited g0 = unvisited g - {v}" by (auto simp: unvisited_def g0_def)
  show "v \<notin> gray g" using nv vis vV by (auto simp: gray_def)
  have "\<forall>u\<in>set (vertexSet g0). isProcessing g0 u \<longrightarrow> isVisited g0 u"
    using vis by (auto simp: g0_def)
  then show "dag_inv g0"
    using inv unfolding dag_inv_def b same_structure_edge_rel [OF s]
    by (simp add: same_structure_links_inv [OF s])
qed



lemma dag_failed_trans:
  "same_structure g g1 \<Longrightarrow> dag_failed g1 g' \<Longrightarrow> dag_failed g g'"
  by (auto simp: dag_failed_def same_structure_edge_rel intro: same_structure_trans)

lemma dag_done_fields:
  assumes "dag_done g v g'"
  shows "same_structure g g'" "dag_inv g'" "gray g' = gray g - {v}" "v \<in> black g'"
    "black g \<subseteq> black g'" "unvisited g' \<subseteq> unvisited g"
  using assms by (simp_all add: dag_done_def)

lemma card_unvisited_mono:
  "unvisited g' \<subseteq> unvisited g \<Longrightarrow> card (unvisited g) \<le> n \<Longrightarrow> card (unvisited g') \<le> n"
  by (meson card_mono finite_unvisited le_trans)

text \<open>
  The loop of \<^verbatim>\<open>dfsIsDAG\<close> on the grey vertex \<open>v\<close>, with the edges \<open>ds\<close> behind it and the
  edges \<open>es\<close> ahead, given that calls on graphs with at most \<open>n\<close> unvisited vertices
  return what they should.
\<close>

lemma dfsIsDAG_adj_total:
  assumes call: "\<And>w g. dag_inv g \<Longrightarrow> w \<in> unvisited g \<Longrightarrow>
      \<forall>p\<in>gray g. (p, w) \<in> (edge_rel g)\<^sup>+ \<Longrightarrow> card (unvisited g) \<le> n \<Longrightarrow>
      \<exists>b g'. dfsIsDAG_rec (Inl w) g = Some (b, g') \<and>
        (if b then dag_done g w g' else dag_failed g g')"
  shows "dag_inv g \<Longrightarrow> v \<in> gray g \<Longrightarrow> \<forall>p\<in>gray g. (p, v) \<in> (edge_rel g)\<^sup>* \<Longrightarrow>
    getAdj g v = ds @ es \<Longrightarrow> \<forall>e\<in>set ds. getDest g e \<in> black g \<Longrightarrow>
    card (unvisited g) \<le> n \<Longrightarrow>
    \<exists>b g'. dfsIsDAG_rec (Inr (v, es)) g = Some (b, g') \<and>
      (if b then dag_done g v g' else dag_failed g g')"
proof (induction es arbitrary: g ds)
  case Nil
  then have "dag_done g v (setProcesssing v False g)" by (intro dag_inv_finish) simp_all
  then show ?case by (auto simp: dfsIsDAG_rec_Nil)
next
  case (Cons e es)
  note inv = Cons.prems(1) and v = Cons.prems(2) and reach = Cons.prems(3)
    and adj = Cons.prems(4) and behind = Cons.prems(5) and n = Cons.prems(6)
  let ?w = "getDest g e"
  let ?E = "edge_rel g"
  from inv have lnk: "links_inv g" by (simp add: dag_inv_def)
  from v have vV: "v \<in> set (vertexSet g)" and vp: "isProcessing g v" by (simp_all add: gray_def)
  from adj have e: "e \<in> set (getAdj g v)" by simp
  then have vw: "(v, ?w) \<in> ?E" using vV by (intro edge_relI)
  then have wV: "?w \<in> set (vertexSet g)" using edge_rel_closed [OF lnk] by blast
  have adj': "getAdj g v = (ds @ [e]) @ es" using adj by simp
  consider (proc) "isProcessing g ?w"
    | (seen) "\<not> isProcessing g ?w" "isVisited g ?w"
    | (new) "\<not> isProcessing g ?w" "\<not> isVisited g ?w"
    by blast
  then show ?case
  proof cases
    case proc
    then have "?w \<in> gray g" using wV by (simp add: gray_def)
    with reach have "(?w, v) \<in> ?E\<^sup>*" by blast
    from this vw have "(?w, ?w) \<in> ?E\<^sup>+" by (rule rtrancl_into_trancl1)
    moreover have "back_edge g" using vV e vp proc by (auto simp: back_edge_def)
    ultimately have "dag_failed g g" by (auto simp: dag_failed_def)
    with proc show ?thesis by (auto simp: dfsIsDAG_rec_Cons)
  next
    case seen
    then have "?w \<in> black g" using wV by (simp add: black_def)
    with behind have "\<forall>x\<in>set (ds @ [e]). getDest g x \<in> black g" by simp
    from Cons.IH [OF inv v reach adj' this n] seen show ?thesis
      by (simp add: dfsIsDAG_rec_Cons)
  next
    case new
    then have w: "?w \<in> unvisited g" using wV by (simp add: unvisited_def)
    have "\<forall>p\<in>gray g. (p, ?w) \<in> ?E\<^sup>+"
      using reach vw by (blast intro: rtrancl_into_trancl1)
    from call [OF inv w this n] obtain b1 g1 where
      run1: "dfsIsDAG_rec (Inl ?w) g = Some (b1, g1)" and
      post1: "if b1 then dag_done g ?w g1 else dag_failed g g1" by blast
    show ?thesis
    proof (cases b1)
      case False
      with post1 run1 new show ?thesis by (auto simp: dfsIsDAG_rec_Cons)
    next
      case True
      with post1 have d1: "dag_done g ?w g1" by simp
      note f1 = dag_done_fields [OF d1]
      note s1 = same_structure_fields [OF f1(1)]
      have wg: "?w \<notin> gray g" using new by (simp add: gray_def)
      then have gr1: "gray g1 = gray g" using f1(3) by simp
      have E1: "edge_rel g1 = ?E" by (rule same_structure_edge_rel [OF f1(1)])
      have v1: "v \<in> gray g1" using v gr1 by simp
      have reach1: "\<forall>p\<in>gray g1. (p, v) \<in> (edge_rel g1)\<^sup>*" using reach gr1 E1 by simp
      have adj1: "getAdj g1 v = (ds @ [e]) @ es" using adj' by (simp add: s1)
      have behind1: "\<forall>x\<in>set (ds @ [e]). getDest g1 x \<in> black g1"
        using behind f1(4,5) by (auto simp: s1)
      have n1: "card (unvisited g1) \<le> n" using f1(6) n by (rule card_unvisited_mono)
      from Cons.IH [OF f1(2) v1 reach1 adj1 behind1 n1] obtain b g' where
        run2: "dfsIsDAG_rec (Inr (v, es)) g1 = Some (b, g')" and
        post2: "if b then dag_done g1 v g' else dag_failed g1 g'" by blast
      have run: "dfsIsDAG_rec (Inr (v, e # es)) g = Some (b, g')"
        using new run1 True run2 by (simp add: dfsIsDAG_rec_Cons)
      show ?thesis
      proof (cases b)
        case False
        with post2 have "dag_failed g g'" using dag_failed_trans [OF f1(1)] by simp
        with run False show ?thesis by auto
      next
        case b: True
        with post2 have d2: "dag_done g1 v g'" by simp
        note f2 = dag_done_fields [OF d2]
        have "dag_done g v g'"
          unfolding dag_done_def
        proof (intro conjI)
          show "same_structure g g'" by (rule same_structure_trans [OF f1(1) f2(1)])
          show "dag_inv g'" by (rule f2(2))
          show "gray g' = gray g - {v}" by (simp add: f2(3) gr1)
          show "v \<in> black g'" by (rule f2(4))
          show "black g \<subseteq> black g'" using f1(5) f2(5) by (rule subset_trans)
          show "unvisited g' \<subseteq> unvisited g" using f2(6) f1(6) by (rule subset_trans)
        qed
        with run b show ?thesis by auto
      qed
    qed
  qed
qed

lemma dfsIsDAG_call_total:
  "dag_inv g \<Longrightarrow> w \<in> unvisited g \<Longrightarrow> \<forall>p\<in>gray g. (p, w) \<in> (edge_rel g)\<^sup>+ \<Longrightarrow>
   card (unvisited g) \<le> n \<Longrightarrow>
   \<exists>b g'. dfsIsDAG_rec (Inl w) g = Some (b, g') \<and>
     (if b then dag_done g w g' else dag_failed g g')"
proof (induction n arbitrary: w g)
  case 0
  then show ?case by simp
next
  case (Suc n)
  let ?g0 = "setProcesssing w True (setVisited w True g)"
  note en = dag_inv_enter [OF Suc.prems(1,2)]
  have w0: "w \<in> gray ?g0" by (simp add: en(2))
  have reach0: "\<forall>p\<in>gray ?g0. (p, w) \<in> (edge_rel ?g0)\<^sup>*"
    using Suc.prems(3) by (auto simp: en(2) same_structure_edge_rel [OF en(5)])
  have adj0: "getAdj ?g0 w = [] @ getAdj g w" by simp
  have n0: "card (unvisited ?g0) \<le> n"
    using Suc.prems(2,4) by (simp add: en(4))
  have behind0: "\<forall>e\<in>set []. getDest ?g0 e \<in> black ?g0" by simp
  from dfsIsDAG_adj_total [where n = n and g = ?g0 and v = w and ds = "[]" and es = "getAdj g w",
      OF Suc.IH en(1) w0 reach0 adj0 behind0 n0]
  obtain b g' where run: "dfsIsDAG_rec (Inr (w, getAdj g w)) ?g0 = Some (b, g')"
    and post: "if b then dag_done ?g0 w g' else dag_failed ?g0 g'" by blast
  have "if b then dag_done g w g' else dag_failed g g'"
  proof (cases b)
    case True
    with post have d: "dag_done ?g0 w g'" by simp
    note f = dag_done_fields [OF d]
    have "dag_done g w g'"
      unfolding dag_done_def
    proof (intro conjI)
      show "same_structure g g'" by (rule same_structure_trans [OF en(5) f(1)])
      show "dag_inv g'" by (rule f(2))
      show "gray g' = gray g - {w}" using en(6) by (simp add: f(3) en(2))
      show "w \<in> black g'" by (rule f(4))
      show "black g \<subseteq> black g'" using f(5) by (simp add: en(3))
      show "unvisited g' \<subseteq> unvisited g" using f(6) by (auto simp: en(4))
    qed
    with True show ?thesis by simp
  next
    case False
    with post show ?thesis using dag_failed_trans [OF en(5)] by simp
  qed
  with run show ?case unfolding dfsIsDAG_rec_Inl by blast
qed

section \<open>Cycle detection\<close>

lemma colours_fold_reset:
  "isVisited (fold (\<lambda>v h. setProcesssing v False (setVisited v False h)) vs g) u =
     (if u \<in> set vs then False else isVisited g u)"
  "isProcessing (fold (\<lambda>v h. setProcesssing v False (setVisited v False h)) vs g) u =
     (if u \<in> set vs then False else isProcessing g u)"
  by (induction vs arbitrary: g) auto

lemma isDAG_loop_total:
  "dag_inv g \<Longrightarrow> gray g = {} \<Longrightarrow> set vs \<subseteq> set (vertexSet g) \<Longrightarrow>
   \<exists>b g'. isDAG_loop vs g = Some (b, g') \<and>
     (if b then same_structure g g' \<and> dag_inv g' \<and> gray g' = {} \<and>
        unvisited g' \<subseteq> unvisited g - set vs
      else dag_failed g g')"
proof (induction vs arbitrary: g)
  case Nil
  then show ?case by auto
next
  case (Cons v vs)
  show ?case
  proof (cases "isVisited g v")
    case True
    from Cons.IH [OF Cons.prems(1,2)] Cons.prems(3) obtain b g' where
      run: "isDAG_loop vs g = Some (b, g')" and
      post: "if b then same_structure g g' \<and> dag_inv g' \<and> gray g' = {} \<and>
        unvisited g' \<subseteq> unvisited g - set vs else dag_failed g g'" by auto
    have "unvisited g - set vs \<subseteq> unvisited g - set (v # vs)"
      using True by (auto simp: unvisited_def)
    with post have "if b then same_structure g g' \<and> dag_inv g' \<and> gray g' = {} \<and>
        unvisited g' \<subseteq> unvisited g - set (v # vs) else dag_failed g g'"
      by (cases b) (simp_all, blast)
    with run True show ?thesis by auto
  next
    case False
    with Cons.prems(3) have v: "v \<in> unvisited g" by (simp add: unvisited_def)
    have "\<forall>p\<in>gray g. (p, v) \<in> (edge_rel g)\<^sup>+" using Cons.prems(2) by simp
    from dfsIsDAG_call_total [OF Cons.prems(1) v this order_refl] obtain b1 g1 where
      run1: "dfsIsDAG v g = Some (b1, g1)" and
      post1: "if b1 then dag_done g v g1 else dag_failed g g1"
      unfolding dfsIsDAG_def by blast
    show ?thesis
    proof (cases b1)
      case b1: False
      with post1 run1 False show ?thesis by auto
    next
      case b1: True
      with post1 have d1: "dag_done g v g1" by simp
      note f1 = dag_done_fields [OF d1]
      have gr1: "gray g1 = {}" using f1(3) Cons.prems(2) by simp
      have vs1: "set vs \<subseteq> set (vertexSet g1)"
        using Cons.prems(3) by (simp add: same_structure_fields [OF f1(1)])
      from Cons.IH [OF f1(2) gr1 vs1] obtain b g' where
        run2: "isDAG_loop vs g1 = Some (b, g')" and
        post2: "if b then same_structure g1 g' \<and> dag_inv g' \<and> gray g' = {} \<and>
          unvisited g' \<subseteq> unvisited g1 - set vs else dag_failed g1 g'" by blast
      have run: "isDAG_loop (v # vs) g = Some (b, g')" using False run1 b1 run2 by simp
      show ?thesis
      proof (cases b)
        case False
        with post2 have "dag_failed g g'" using dag_failed_trans [OF f1(1)] by simp
        with run False show ?thesis by auto
      next
        case True
        with post2 have s2: "same_structure g1 g'" and i2: "dag_inv g'" and gr2: "gray g' = {}"
          and u2: "unvisited g' \<subseteq> unvisited g1 - set vs" by simp_all
        have "v \<notin> unvisited g1" using f1(4) by (simp add: black_def unvisited_def)
        with u2 f1(6) have "unvisited g' \<subseteq> unvisited g - set (v # vs)" by auto
        with run True same_structure_trans [OF f1(1) s2] i2 gr2 show ?thesis by auto
      qed
    qed
  qed
qed

lemma cycle_in_graph:
  "(x, x) \<in> (edge_rel g)\<^sup>+ \<Longrightarrow> x \<in> set (vertexSet g)"
  by (auto dest!: tranclD elim: edge_relE)

lemma back_edge_gray: "back_edge g \<Longrightarrow> gray g \<noteq> {}"
  by (auto simp: back_edge_def gray_def)

lemma isDAG_total:
  assumes wf: "wf_graph g"
  shows "\<exists>b g'. isDAG g = Some (b, g') \<and> same_structure g g' \<and>
    (b \<longleftrightarrow> acyclic (edge_rel g)) \<and> (b \<longleftrightarrow> \<not> back_edge g') \<and> (b \<longrightarrow> gray g' = {})"
proof -
  from wf have lnk: "links_inv g" by (simp add: wf_graph_def)
  let ?g0 = "fold (\<lambda>v h. setProcesssing v False (setVisited v False h)) (vertexSet g) g"
  have s0: "same_structure g ?g0" by (rule same_structure_resetColours)
  note f0 = same_structure_fields [OF s0]
  have E0: "edge_rel ?g0 = edge_rel g" by (rule same_structure_edge_rel [OF s0])
  have b0: "black ?g0 = {}" and gr0: "gray ?g0 = {}" and u0: "unvisited ?g0 = set (vertexSet g)"
    by (auto simp: black_def gray_def unvisited_def f0 colours_fold_reset)
  have inv0: "dag_inv ?g0"
    unfolding dag_inv_def b0 using lnk
    by (simp add: same_structure_links_inv [OF s0] f0 colours_fold_reset)
  from isDAG_loop_total [OF inv0 gr0 subset_refl] obtain b g' where
    run: "isDAG_loop (vertexSet ?g0) ?g0 = Some (b, g')" and
    post: "if b then same_structure ?g0 g' \<and> dag_inv g' \<and> gray g' = {} \<and>
        unvisited g' \<subseteq> unvisited ?g0 - set (vertexSet ?g0) else dag_failed ?g0 g'" by blast
  have r: "isDAG g = Some (b, g')" using run by (simp add: isDAG_def Let_def)
  show ?thesis
  proof (cases b)
    case True
    with post have s1: "same_structure ?g0 g'" and inv: "dag_inv g'" and gr: "gray g' = {}"
      and u: "unvisited g' \<subseteq> unvisited ?g0 - set (vertexSet ?g0)" by simp_all
    have s: "same_structure g g'" using s0 s1 by (rule same_structure_trans)
    from u have "unvisited g' = {}" by (auto simp: u0 f0)
    with gr have bl: "black g' = set (vertexSet g)"
      by (auto simp: same_structure_colours [OF s])
    have "(x, x) \<notin> (edge_rel g)\<^sup>+" for x
    proof
      assume c: "(x, x) \<in> (edge_rel g)\<^sup>+"
      then have "x \<in> black g'" using cycle_in_graph bl by blast
      with inv c show False by (auto simp: dag_inv_def same_structure_edge_rel [OF s])
    qed
    then have "acyclic (edge_rel g)" by (simp add: acyclic_def)
    moreover have "\<not> back_edge g'" using gr back_edge_gray by blast
    ultimately show ?thesis using r s True gr by blast
  next
    case False
    with post have "dag_failed ?g0 g'" by simp
    then have s1: "same_structure ?g0 g'" and c: "\<exists>x. (x, x) \<in> (edge_rel g)\<^sup>+"
      and be: "back_edge g'" by (simp_all add: dag_failed_def E0)
    from c have "\<not> acyclic (edge_rel g)" by (simp add: acyclic_def)
    with r same_structure_trans [OF s0 s1] be False show ?thesis by blast
  qed
qed

text \<open>
  C2. On a well-formed graph \<open>isDAG()\<close> returns, and it returns false exactly when
  some vertex lies on a directed cycle. It returns false exactly when the search has
  met an edge from a vertex in the \<^verbatim>\<open>processing\<close> state to a vertex in the
  \<^verbatim>\<open>processing\<close> state: the state it leaves still shows that edge, and after a true
  result no vertex is \<^verbatim>\<open>processing\<close>.
\<close>

theorem isDAG_false_iff_cycle:
  assumes wf: "wf_graph g"
  shows "\<exists>b g'. isDAG g = Some (b, g') \<and>
    (\<not> b \<longleftrightarrow> (\<exists>v. (v, v) \<in> (edge_rel g)\<^sup>+)) \<and>
    (\<not> b \<longleftrightarrow> back_edge g') \<and>
    (b \<longleftrightarrow> gray g' = {})"
proof -
  from isDAG_total [OF wf] obtain b g' where run: "isDAG g = Some (b, g')"
    and s: "same_structure g g'" and a: "b \<longleftrightarrow> acyclic (edge_rel g)"
    and be: "b \<longleftrightarrow> \<not> back_edge g'" and gr: "b \<longrightarrow> gray g' = {}" by blast
  have "b \<longleftrightarrow> gray g' = {}"
  proof
    assume b
    with gr show "gray g' = {}" by simp
  next
    assume "gray g' = {}"
    with back_edge_gray be show b by blast
  qed
  with run a be show ?thesis by (auto simp: acyclic_def)
qed

theorem isDAG_false_iff_cycle_witness:
  "(\<exists>b g'. isDAG graph_S5 = Some (b, g') \<and>
      (\<not> b \<longleftrightarrow> (\<exists>v. (v, v) \<in> (edge_rel graph_S5)\<^sup>+)) \<and>
      (\<not> b \<longleftrightarrow> back_edge g') \<and> (b \<longleftrightarrow> gray g' = {})) \<and>
   map_option fst (isDAG graph_S5) = Some False"
proof (intro conjI)
  show "\<exists>b g'. isDAG graph_S5 = Some (b, g') \<and>
      (\<not> b \<longleftrightarrow> (\<exists>v. (v, v) \<in> (edge_rel graph_S5)\<^sup>+)) \<and>
      (\<not> b \<longleftrightarrow> back_edge g') \<and> (b \<longleftrightarrow> gray g' = {})"
    by (rule isDAG_false_iff_cycle [OF reachable_wf_graph [OF reachable_graph_S5]])
  show "map_option fst (isDAG graph_S5) = Some False" by code_simp
qed

section \<open>Breadth-first search: the level order\<close>

subsection \<open>Hop distances\<close>

lemma hops_le: "(s, x) \<in> E ^^ n \<Longrightarrow> hops E s x \<le> n"
  unfolding hops_def by (rule Least_le)

lemma hops_relpow: "(s, x) \<in> E\<^sup>* \<Longrightarrow> (s, x) \<in> E ^^ hops E s x"
  unfolding hops_def by (rule LeastI_ex) (simp add: rtrancl_power)

lemma hops_self [simp]: "hops E s s = 0"
  using hops_le [where s = s and x = s and E = E and n = 0] by simp

lemma hops_zero: "(s, x) \<in> E\<^sup>* \<Longrightarrow> hops E s x = 0 \<Longrightarrow> x = s"
  using hops_relpow [where s = s and x = x and E = E] by simp

lemma hops_step:
  assumes "(s, u) \<in> E\<^sup>*" "(u, w) \<in> E"
  shows "hops E s w \<le> hops E s u + 1"
proof -
  from assms(1) have "(s, u) \<in> E ^^ hops E s u" by (rule hops_relpow)
  with assms(2) have "(s, w) \<in> E ^^ Suc (hops E s u)" by auto
  then show ?thesis using hops_le by fastforce
qed

lemma hops_pred:
  assumes "(s, x) \<in> E\<^sup>*" "hops E s x = Suc k"
  shows "\<exists>y. (s, y) \<in> E\<^sup>* \<and> (y, x) \<in> E \<and> hops E s y = k"
proof -
  from assms have "(s, x) \<in> E ^^ Suc k" using hops_relpow by fastforce
  then obtain y where y: "(s, y) \<in> E ^^ k" and yx: "(y, x) \<in> E" by auto
  from y have r: "(s, y) \<in> E\<^sup>*" by (rule relpow_imp_rtrancl)
  from y have "hops E s y \<le> k" by (rule hops_le)
  moreover from hops_step [OF r yx] assms(2) have "k \<le> hops E s y" by simp
  ultimately show ?thesis using r yx by auto
qed

subsection \<open>The vertices that enter the queue\<close>

lemma fresh_props: "distinct (fresh S ws) \<and> set (fresh S ws) = set ws - S"
  by (induction ws arbitrary: S) auto

lemma fresh_append:
  "fresh S (ws @ ws') = fresh S ws @ fresh (S \<union> set (fresh S ws)) ws'"
  by (induction ws arbitrary: S) (auto simp: insert_commute Un_commute insert_absorb)



subsection \<open>The search keeps its invariant\<close>

lemma bfs_mid_enqueue:
  assumes M: "bfs_mid E s out v q" and vw: "(v, w) \<in> E" and new: "w \<notin> set (out @ v # q)"
  shows "bfs_mid E s out v (q @ [w])"
proof -
  let ?L = "out @ v # q"
  let ?d = "hops E s"
  from M have dist: "distinct ?L" and s: "s \<in> set ?L" and reach: "\<forall>u\<in>set ?L. (s, u) \<in> E\<^sup>*"
    and sorted: "sorted_wrt (\<lambda>a b. ?d a \<le> ?d b) ?L"
    and near: "\<forall>x\<in>set ?L. ?d x \<le> ?d v + 1"
    and full: "\<forall>x. (s, x) \<in> E\<^sup>* \<and> ?d x \<le> ?d v \<longrightarrow> x \<in> set ?L"
    by (simp_all add: bfs_mid_def)
  from reach have rv: "(s, v) \<in> E\<^sup>*" by simp
  from this vw have rw: "(s, w) \<in> E\<^sup>*" by (rule rtrancl_into_rtrancl)
  have "?d w \<le> ?d v + 1" using rv vw by (rule hops_step)
  moreover have "\<not> ?d w \<le> ?d v" using full rw new by blast
  ultimately have dw: "?d w = ?d v + 1" by simp
  have L: "out @ v # q @ [w] = ?L @ [w]" by simp
  show ?thesis
    unfolding bfs_mid_def L
  proof (intro conjI)
    show "distinct (?L @ [w])" using dist new by simp
    show "s \<in> set (?L @ [w])" using s by auto
    show "\<forall>u\<in>set (?L @ [w]). (s, u) \<in> E\<^sup>*" using reach rw by simp
    show "sorted_wrt (\<lambda>a b. ?d a \<le> ?d b) (?L @ [w])"
      using sorted near dw by (simp add: sorted_wrt_append del: append_assoc append.simps)
    show "\<forall>x\<in>set (?L @ [w]). ?d x \<le> ?d v + 1" using near dw by simp
    show "\<forall>x. (s, x) \<in> E\<^sup>* \<and> ?d x \<le> ?d v \<longrightarrow> x \<in> set (?L @ [w])" using full by auto
  qed
qed

lemma bfs_mid_fresh:
  "bfs_mid E s out v q \<Longrightarrow> \<forall>w\<in>set ws. (v, w) \<in> E \<Longrightarrow>
   bfs_mid E s out v (q @ fresh (set (out @ v # q)) ws)"
proof (induction ws arbitrary: q)
  case Nil
  then show ?case by simp
next
  case (Cons w ws)
  show ?case
  proof (cases "w \<in> set (out @ v # q)")
    case True
    with Cons.IH [OF Cons.prems(1)] Cons.prems(2) show ?thesis by simp
  next
    case False
    from Cons.prems have "bfs_mid E s out v (q @ [w])"
      using False by (intro bfs_mid_enqueue) simp_all
    from Cons.IH [OF this] Cons.prems(2)
    have "bfs_mid E s out v ((q @ [w]) @ fresh (set (out @ v # q @ [w])) ws)" by simp
    moreover have "set (out @ v # q @ [w]) = insert w (set (out @ v # q))" by auto
    ultimately show ?thesis using False by simp
  qed
qed

lemma bfs_inv_pop:
  assumes succ_E: "\<And>w. (v, w) \<in> E \<longleftrightarrow> w \<in> set (succ v)"
    and inv: "bfs_inv E s out (v # q)"
  shows "bfs_inv E s (out @ [v]) (q @ fresh (set (out @ v # q)) (succ v))"
proof -
  let ?d = "hops E s"
  let ?new = "fresh (set (out @ v # q)) (succ v)"
  let ?q = "q @ ?new"
  let ?L = "out @ v # ?q"
  from inv have closed: "\<forall>u\<in>set out. \<forall>w. (u, w) \<in> E \<longrightarrow> w \<in> set (out @ v # q)"
    and M0: "bfs_mid E s out v q" by (simp_all add: bfs_inv_def)
  from M0 have M: "bfs_mid E s out v ?q" by (rule bfs_mid_fresh) (simp add: succ_E)
  then have dist: "distinct ?L" and s: "s \<in> set ?L" and reach: "\<forall>u\<in>set ?L. (s, u) \<in> E\<^sup>*"
    and sorted: "sorted_wrt (\<lambda>a b. ?d a \<le> ?d b) ?L"
    and near: "\<forall>x\<in>set ?L. ?d x \<le> ?d v + 1"
    and full: "\<forall>x. (s, x) \<in> E\<^sup>* \<and> ?d x \<le> ?d v \<longrightarrow> x \<in> set ?L"
    by (simp_all add: bfs_mid_def)
  have new: "set ?new = set (succ v) - set (out @ v # q)"
    using fresh_props [of "set (out @ v # q)" "succ v"] by blast
  have succ_v: "w \<in> set ?L" if "(v, w) \<in> E" for w
  proof -
    from that have "w \<in> set (succ v)" by (simp add: succ_E)
    then have "w \<in> set (out @ v # q) \<or> w \<in> set ?new" unfolding new by blast
    then show ?thesis by auto
  qed
  have sub: "set (out @ v # q) \<subseteq> set ?L" by auto
  have closed': "\<forall>u\<in>set (out @ [v]). \<forall>w. (u, w) \<in> E \<longrightarrow> w \<in> set ((out @ [v]) @ ?q)"
  proof (intro ballI allI impI)
    fix u w assume u: "u \<in> set (out @ [v])" and uw: "(u, w) \<in> E"
    have "w \<in> set ?L"
    proof (cases "u = v")
      case True
      with uw show ?thesis using succ_v by blast
    next
      case False
      with u have "u \<in> set out" by simp
      with closed uw have "w \<in> set (out @ v # q)" by blast
      with sub show ?thesis by blast
    qed
    then show "w \<in> set ((out @ [v]) @ ?q)" by simp
  qed
  have L: "(out @ [v]) @ ?q = ?L" by simp
  show ?thesis
  proof (cases ?q)
    case Nil
    note facts = dist [unfolded Nil] s [unfolded Nil] reach [unfolded Nil]
      sorted [unfolded Nil] closed' [unfolded Nil]
    show ?thesis unfolding bfs_inv_def Nil using facts by simp
  next
    case (Cons v' q3)
    have L': "?L = (out @ [v]) @ v' # q3" using Cons by simp
    from sorted have vv': "?d v \<le> ?d v'"
      unfolding L' by (simp add: sorted_wrt_append)
    from sorted have after: "\<forall>y\<in>set (v' # q3). ?d v' \<le> ?d y"
      unfolding L' by (auto simp: sorted_wrt_append)
    have near': "\<forall>x\<in>set ?L. ?d x \<le> ?d v' + 1"
    proof
      fix x assume "x \<in> set ?L"
      with near have "?d x \<le> ?d v + 1" by (rule bspec)
      with vv' show "?d x \<le> ?d v' + 1" by simp
    qed
    have full': "x \<in> set ?L" if rx: "(s, x) \<in> E\<^sup>*" and dx: "?d x \<le> ?d v'" for x
    proof (cases "?d x \<le> ?d v")
      case True
      with rx full show ?thesis by blast
    next
      case False
      have "v' \<in> set ?L" unfolding L' by simp
      with near have "?d v' \<le> ?d v + 1" by blast
      with False dx have dx': "?d x = Suc (?d v)" by simp
      from hops_pred [OF rx this] obtain y where ry: "(s, y) \<in> E\<^sup>*" and yx: "(y, x) \<in> E"
        and dy: "?d y = ?d v" by blast
      from full ry dy have "y \<in> set ?L" by simp
      moreover have "y \<notin> set (v' # q3)"
      proof
        assume "y \<in> set (v' # q3)"
        with after have "?d v' \<le> ?d y" by blast
        with dy dx dx' show False by simp
      qed
      ultimately have "y \<in> set (out @ [v])" unfolding L' by auto
      with closed' yx show ?thesis unfolding L by blast
    qed
    have "bfs_mid E s (out @ [v]) v' q3"
      unfolding bfs_mid_def L' [symmetric]
    proof (intro conjI)
      show "distinct ?L" by (rule dist)
      show "s \<in> set ?L" by (rule s)
      show "\<forall>u\<in>set ?L. (s, u) \<in> E\<^sup>*" by (rule reach)
      show "sorted_wrt (\<lambda>a b. ?d a \<le> ?d b) ?L" by (rule sorted)
      show "\<forall>x\<in>set ?L. ?d x \<le> ?d v' + 1" by (rule near')
      show "\<forall>x. (s, x) \<in> E\<^sup>* \<and> ?d x \<le> ?d v' \<longrightarrow> x \<in> set ?L" using full' by blast
    qed
    with closed' [unfolded Cons] show ?thesis unfolding bfs_inv_def Cons by simp
  qed
qed

lemma level_order_correct:
  assumes succ_E: "\<And>u w. (s, u) \<in> E\<^sup>* \<Longrightarrow> (u, w) \<in> E \<longleftrightarrow> w \<in> set (succ u)"
  shows "level_order succ S q r \<Longrightarrow> S = set (out @ q) \<Longrightarrow> bfs_inv E s out q \<Longrightarrow>
    distinct (out @ r) \<and> set (out @ r) = {x. (s, x) \<in> E\<^sup>*} \<and>
    sorted_wrt (\<lambda>a b. hops E s a \<le> hops E s b) (out @ r)"
proof (induction arbitrary: out rule: level_order.induct)
  case (empty S)
  from empty.prems(2) have closed: "\<forall>u\<in>set out. \<forall>w. (u, w) \<in> E \<longrightarrow> w \<in> set out"
    and dist: "distinct out" and s: "s \<in> set out" and reach: "\<forall>u\<in>set out. (s, u) \<in> E\<^sup>*"
    and sorted: "sorted_wrt (\<lambda>a b. hops E s a \<le> hops E s b) out"
    by (simp_all add: bfs_inv_def)
  have "x \<in> set out" if "(s, x) \<in> E\<^sup>*" for x
    using that by (induction rule: rtrancl_induct) (use s closed in blast)+
  with reach have "set out = {x. (s, x) \<in> E\<^sup>*}" by auto
  with dist sorted show ?case by simp
next
  case (pop S v q r)
  from pop.prems(2) have "bfs_mid E s out v q" by (simp add: bfs_inv_def)
  then have "(s, v) \<in> E\<^sup>*" by (simp add: bfs_mid_def)
  from bfs_inv_pop [where succ = succ, OF succ_E [OF this] pop.prems(2)]
  have inv: "bfs_inv E s (out @ [v]) (q @ fresh S (succ v))" by (simp add: pop.prems(1))
  have "S \<union> set (fresh S (succ v)) = set ((out @ [v]) @ q @ fresh S (succ v))"
    by (auto simp: pop.prems(1))
  from pop.IH [OF this inv] show ?case by simp
qed

section \<open>Breadth-first search\<close>

lemma resetVisited_simps [simp]:
  "vertexSet (resetVisited g) = vertexSet g" "vertexMap (resetVisited g) = vertexMap g"
  "emem (resetVisited g) = emem g" "getInfo (resetVisited g) u = getInfo g u"
  "getAdj (resetVisited g) u = getAdj g u"
  by (simp_all add: same_structure_fields [OF same_structure_resetVisited])

lemma bfs_loop_Nil: "bfs_loop [] g res = Some (res, g)"
  by (subst bfs_loop.simps) simp

lemma bfs_loop_Cons:
  "bfs_loop (v # q) g res =
     bfs_loop (fst (bfs_adj (getAdj g v) q g)) (snd (bfs_adj (getAdj g v) q g))
       (res @ [getInfo g v])"
  by (subst bfs_loop.simps) (simp add: split_beta)

lemma bfs_adj_fresh:
  "fst (bfs_adj es q g) = q @ fresh {u. isVisited g u} (map (getDest g) es) \<and>
   {u. isVisited (snd (bfs_adj es q g)) u} =
     {u. isVisited g u} \<union> set (fresh {u. isVisited g u} (map (getDest g) es))"
proof (induction es arbitrary: q g)
  case Nil
  show ?case by simp
next
  case (Cons e es)
  let ?w = "getDest g e"
  show ?case
  proof (cases "isVisited g ?w")
    case True
    with Cons.IH [of q g] show ?thesis by simp
  next
    case False
    let ?g1 = "setVisited ?w True g"
    have v1: "{u. isVisited ?g1 u} = insert ?w {u. isVisited g u}" by auto
    have d1: "map (getDest ?g1) es = map (getDest g) es" by simp
    from Cons.IH [of "q @ [?w]" ?g1] False show ?thesis
      unfolding v1 d1 by (simp add: Let_def)
  qed
qed

lemma fresh_outside:
  "set ws \<subseteq> V \<Longrightarrow> S \<inter> V = S' \<inter> V \<Longrightarrow> fresh S ws = fresh S' ws"
proof (induction ws arbitrary: S S')
  case Nil
  show ?case by simp
next
  case (Cons w ws)
  from Cons.prems have w: "w \<in> S \<longleftrightarrow> w \<in> S'" by auto
  have "fresh S ws = fresh S' ws" using Cons.prems by (intro Cons.IH) auto
  moreover have "fresh (insert w S) ws = fresh (insert w S') ws"
    using Cons.prems by (intro Cons.IH) auto
  ultimately show ?case using w by simp
qed

lemma level_order_outside:
  "level_order succ S q r \<Longrightarrow> set q \<subseteq> V \<Longrightarrow> (\<And>v. v \<in> V \<Longrightarrow> set (succ v) \<subseteq> V) \<Longrightarrow>
   S \<inter> V = S' \<inter> V \<Longrightarrow> level_order succ S' q r"
proof (induction arbitrary: S' rule: level_order.induct)
  case (empty S)
  show ?case by (rule level_order.empty)
next
  case (pop S v q r)
  from pop.prems(1,2) have sv: "set (succ v) \<subseteq> V" by simp
  have f: "fresh S (succ v) = fresh S' (succ v)" using sv pop.prems(3) by (rule fresh_outside)
  have "set (fresh S (succ v)) \<subseteq> V" using sv fresh_props [of S "succ v"] by auto
  with pop.prems have "level_order succ (S' \<union> set (fresh S (succ v))) (q @ fresh S (succ v)) r"
    by (intro pop.IH) auto
  then show ?case unfolding f by (rule level_order.pop)
qed

lemma bfs_loop_total:
  "links_inv g \<Longrightarrow> set q \<subseteq> set (vertexSet g) \<Longrightarrow>
   \<exists>r g'. bfs_loop q g res = Some (res @ map (getInfo g) r, g') \<and> same_structure g g' \<and>
     level_order (succs g) {u. isVisited g u} q r"
proof (induction "card (unvisited g) + length q" arbitrary: q g res rule: less_induct)
  case less
  show ?case
  proof (cases q)
    case Nil
    show ?thesis unfolding Nil bfs_loop_Nil
      by (intro exI [of _ "[]"] exI [of _ g]) (simp add: level_order.empty)
  next
    case (Cons v q')
    from less.prems(2) Cons have v: "v \<in> set (vertexSet g)" and q': "set q' \<subseteq> set (vertexSet g)"
      by simp_all
    let ?S = "{u. isVisited g u}"
    let ?new = "fresh ?S (succs g v)"
    let ?q1 = "fst (bfs_adj (getAdj g v) q' g)"
    let ?g1 = "snd (bfs_adj (getAdj g v) q' g)"
    from bfs_adj_fresh [of "getAdj g v" q' g]
    have q1: "?q1 = q' @ ?new" and vis1: "{u. isVisited ?g1 u} = ?S \<union> set ?new"
      by (simp_all add: succs_def)
    have s1: "same_structure g ?g1" by (rule bfs_adj_frame)
    note f1 = same_structure_fields [OF s1]
    have newp: "distinct ?new" "set ?new = set (succs g v) - ?S"
      using fresh_props [of ?S "succs g v"] by simp_all
    have newV: "set ?new \<subseteq> set (vertexSet g)"
      using links_inv_succs [OF less.prems(1) v] newp(2) by blast
    have new_unv: "set ?new \<subseteq> unvisited g" using newV newp(2) by (auto simp: unvisited_def)
    have "unvisited ?g1 = unvisited g - set ?new"
      using vis1 by (rule same_structure_unvisited [OF s1])
    then have "card (unvisited ?g1) = card (unvisited g) - length ?new"
      using new_unv newp(1) by (simp add: card_Diff_subset distinct_card)
    moreover have "length ?new \<le> card (unvisited g)"
      using new_unv newp(1) by (metis card_mono distinct_card finite_unvisited)
    ultimately have m: "card (unvisited ?g1) + length ?q1 < card (unvisited g) + length q"
      by (simp add: q1 Cons)
    have l1: "links_inv ?g1" using less.prems(1) by (simp add: same_structure_links_inv [OF s1])
    have q1V: "set ?q1 \<subseteq> set (vertexSet ?g1)" using q' newV by (simp add: q1 f1)
    from less.hyps [OF m l1 q1V, of "res @ [getInfo g v]"] obtain r g' where
      run: "bfs_loop ?q1 ?g1 (res @ [getInfo g v]) = Some ((res @ [getInfo g v]) @ map (getInfo ?g1) r, g')"
      and s2: "same_structure ?g1 g'"
      and lo: "level_order (succs ?g1) {u. isVisited ?g1 u} ?q1 r" by blast
    have "bfs_loop q g res = Some (res @ map (getInfo g) (v # r), g')"
      unfolding Cons bfs_loop_Cons run by (simp add: f1 cong: map_cong)
    moreover have "same_structure g g'" using s1 s2 by (rule same_structure_trans)
    moreover have "level_order (succs g) ?S q (v # r)"
      unfolding Cons using lo
      by (intro level_order.pop) (simp add: same_structure_succs [OF s1] vis1 q1)
    ultimately show ?thesis by blast
  qed
qed

lemma bfs_total:
  assumes wf: "wf_graph g" and s: "findVertex s g = Some v"
  shows "\<exists>order g'. bfs s g = Some (map (getInfo g) order, g') \<and> same_structure g g' \<and>
    level_order (succs g) {v} [v] order \<and> distinct order \<and>
    set order = {u. (v, u) \<in> (edge_rel g)\<^sup>*} \<and>
    sorted_wrt (\<lambda>a b. hops (edge_rel g) v a \<le> hops (edge_rel g) v b) order"
proof -
  from wf have idx: "index_inv g" and lnk: "links_inv g" by (simp_all add: wf_graph_def)
  from s have v: "v \<in> set (vertexSet g)"
    using index_inv_keyD [OF idx] by (auto simp: findVertex_def)
  let ?V = "set (vertexSet g)"
  let ?E = "edge_rel g"
  let ?g1 = "setVisited v True (resetVisited g)"
  have s1: "same_structure g ?g1"
    by (blast intro: same_structure_trans same_structure_resetVisited same_structure_setVisited)
  note f1 = same_structure_fields [OF s1]
  have l1: "links_inv ?g1" using lnk by (simp add: same_structure_links_inv [OF s1])
  have "set [v] \<subseteq> set (vertexSet ?g1)" using v by simp
  from bfs_loop_total [OF l1 this, of "[]"] obtain r g' where
    run: "bfs_loop [v] ?g1 [] = Some ([] @ map (getInfo ?g1) r, g')"
    and s2: "same_structure ?g1 g'"
    and lo: "level_order (succs ?g1) {u. isVisited ?g1 u} [v] r" by blast
  have closed: "\<And>u. u \<in> ?V \<Longrightarrow> set (succs g u) \<subseteq> ?V" using lnk by (rule links_inv_succs)
  have e: "{u. isVisited ?g1 u} \<inter> ?V = {v} \<inter> ?V"
    by (auto simp: isVisited_resetVisited)
  from lo have lo0: "level_order (succs g) {u. isVisited ?g1 u} [v] r"
    by (simp only: same_structure_succs [OF s1])
  have qV: "set [v] \<subseteq> ?V" using v by simp
  from level_order_outside [OF lo0 qV closed e] have lo': "level_order (succs g) {v} [v] r" .
  have reachV: "u \<in> ?V" if "(v, u) \<in> ?E\<^sup>*" for u
    using that by (induction rule: rtrancl_induct) (use v edge_rel_closed [OF lnk] in blast)+
  have succ_E: "(u, w) \<in> ?E \<longleftrightarrow> w \<in> set (succs g u)" if "(v, u) \<in> ?E\<^sup>*" for u w
    using reachV [OF that] by (auto simp: edge_rel_def succs_def)
  have "bfs_mid ?E v [] v []"
    by (auto simp: bfs_mid_def dest: hops_zero)
  then have inv: "bfs_inv ?E v [] [v]" by (simp add: bfs_inv_def)
  from level_order_correct [where E = ?E and s = v and out = "[]", OF succ_E lo' _ inv]
  have "distinct r" "set r = {u. (v, u) \<in> ?E\<^sup>*}"
    "sorted_wrt (\<lambda>a b. hops ?E v a \<le> hops ?E v b) r" by simp_all
  moreover have "bfs s g = Some (map (getInfo g) r, g')"
    using run s by (simp add: bfs_def f1 cong: map_cong)
  moreover have "same_structure g g'" using s1 s2 by (rule same_structure_trans)
  ultimately show ?thesis using lo' by blast
qed

text \<open>
  C3. On a well-formed graph \<open>bfs(s)\<close> returns. If \<open>s\<close> is absent its result is
  empty. Otherwise the result lists the keys of the vertices in the order \<open>order\<close> in
  which they leave a FIFO queue that starts with the source and that the successors
  of each leaving vertex enter in \<^verbatim>\<open>adj\<close> order unless they entered before; \<open>order\<close>
  holds each vertex reachable from the source along directed edges, and no other,
  exactly once, in non-decreasing hop distance from the source.
\<close>

theorem bfs_level_order:
  assumes wf: "wf_graph g"
  shows "(findVertex s g = None \<longrightarrow> bfs s g = Some ([], g)) \<and>
    (\<forall>v. findVertex s g = Some v \<longrightarrow>
       (\<exists>order g'. bfs s g = Some (map (getInfo g) order, g') \<and>
          level_order (succs g) {v} [v] order \<and>
          distinct order \<and> set order = {u. (v, u) \<in> (edge_rel g)\<^sup>*} \<and>
          sorted_wrt (\<lambda>a b. hops (edge_rel g) v a \<le> hops (edge_rel g) v b) order \<and>
          distinct (map (getInfo g) order)))"
proof (intro conjI allI impI)
  assume "findVertex s g = None"
  then show "bfs s g = Some ([], g)" by (simp add: bfs_def)
next
  fix v assume s: "findVertex s g = Some v"
  from wf have idx: "index_inv g" and lnk: "links_inv g" by (simp_all add: wf_graph_def)
  from s have v: "v \<in> set (vertexSet g)"
    using index_inv_keyD [OF idx] by (auto simp: findVertex_def)
  from bfs_total [OF wf s] obtain order g' where
    run: "bfs s g = Some (map (getInfo g) order, g')"
    and lo: "level_order (succs g) {v} [v] order" and d: "distinct order"
    and r: "set order = {u. (v, u) \<in> (edge_rel g)\<^sup>*}"
    and so: "sorted_wrt (\<lambda>a b. hops (edge_rel g) v a \<le> hops (edge_rel g) v b) order"
    by blast
  have "u \<in> set (vertexSet g)" if "(v, u) \<in> (edge_rel g)\<^sup>*" for u
    using that by (induction rule: rtrancl_induct) (use v edge_rel_closed [OF lnk] in blast)+
  with r have "set order \<subseteq> set (vertexSet g)" by auto
  with d have "distinct (map (getInfo g) order)"
    using index_inv_inj [OF idx] by (auto simp: distinct_map inj_on_def)
  with run lo d r so
  show "\<exists>order g'. bfs s g = Some (map (getInfo g) order, g') \<and>
          level_order (succs g) {v} [v] order \<and>
          distinct order \<and> set order = {u. (v, u) \<in> (edge_rel g)\<^sup>*} \<and>
          sorted_wrt (\<lambda>a b. hops (edge_rel g) v a \<le> hops (edge_rel g) v b) order \<and>
          distinct (map (getInfo g) order)" by blast
qed

theorem bfs_level_order_witness:
  "(\<exists>order g'. bfs 1 graph_S3 = Some (map (getInfo graph_S3) order, g') \<and>
      level_order (succs graph_S3) {0} [0] order \<and>
      distinct order \<and> set order = {u. (0, u) \<in> (edge_rel graph_S3)\<^sup>*} \<and>
      sorted_wrt (\<lambda>a b. hops (edge_rel graph_S3) 0 a \<le> hops (edge_rel graph_S3) 0 b) order \<and>
      distinct (map (getInfo graph_S3) order)) \<and>
   map_option fst (bfs 1 graph_S3) = Some [1, 2, 3, 4, 5] \<and>
   map_option fst (bfs 9 graph_S3) = Some []"
proof (intro conjI)
  have wf: "wf_graph graph_S3" by (rule reachable_wf_graph [OF reachable_graph_S3])
  have s: "findVertex 1 graph_S3 = Some 0" by (simp add: graph_S3_def build_defs)
  from bfs_level_order [OF wf, of 1] s
  show "\<exists>order g'. bfs 1 graph_S3 = Some (map (getInfo graph_S3) order, g') \<and>
      level_order (succs graph_S3) {0} [0] order \<and>
      distinct order \<and> set order = {u. (0, u) \<in> (edge_rel graph_S3)\<^sup>*} \<and>
      sorted_wrt (\<lambda>a b. hops (edge_rel graph_S3) 0 a \<le> hops (edge_rel graph_S3) 0 b) order \<and>
      distinct (map (getInfo graph_S3) order)" by blast
  show "map_option fst (bfs 1 graph_S3) = Some [1, 2, 3, 4, 5]" by code_simp
  show "map_option fst (bfs 9 graph_S3) = Some []" by code_simp
qed

section \<open>Counting in-degrees\<close>

lemma edges_into_simps:
  "edges_into g w [] = 0"
  "edges_into g w (e # es) = (if getDest g e = w then 1 else 0) + edges_into g w es"
  "edges_into g w (xs @ ys) = edges_into g w xs + edges_into g w ys"
  by (simp_all add: edges_into_def)

lemma edges_into_mset: "mset xs = mset ys \<Longrightarrow> edges_into g w xs = edges_into g w ys"
  unfolding edges_into_def
  by (metis mset_filter size_mset)

lemma edges_into_cong: "same_structure g g' \<Longrightarrow> edges_into g' w es = edges_into g w es"
  by (simp add: edges_into_def same_structure_fields)

lemma edges_left_emit_aux:
  "distinct vs \<Longrightarrow> v \<in> set vs \<Longrightarrow> v \<notin> set out \<Longrightarrow>
   mset (concat (map f (filter (\<lambda>u. u \<notin> set out) vs))) =
   mset (concat (map f (filter (\<lambda>u. u \<notin> set (out @ [v])) vs))) + mset (f v)"
proof (induction vs)
  case Nil
  then show ?case by simp
next
  case (Cons a vs)
  show ?case
  proof (cases "a = v")
    case True
    with Cons.prems have "v \<notin> set vs" by simp
    then have "filter (\<lambda>u. u \<notin> set (out @ [v])) vs = filter (\<lambda>u. u \<notin> set out) vs"
      by (intro filter_cong) auto
    with True Cons.prems show ?thesis by simp
  next
    case False
    with Cons.prems have "v \<in> set vs" "distinct vs" by auto
    from Cons.IH [OF this(2) this(1) Cons.prems(3)] False show ?thesis by simp
  qed
qed

lemma edges_left_emit:
  assumes "distinct (vertexSet g)" "v \<in> set (vertexSet g)" "v \<notin> set out"
  shows "edges_into g w (edges_left g out @ es') =
    edges_into g w (edges_left g (out @ [v]) @ getAdj g v) + edges_into g w es'"
proof -
  have "mset (edges_left g out) = mset (edges_left g (out @ [v]) @ getAdj g v)"
    unfolding edges_left_def using edges_left_emit_aux [OF assms, where f = "getAdj g"] by simp
  from edges_into_mset [OF this] show ?thesis by (simp add: edges_into_simps)
qed

lemma word32_of_nat_eq_0: "n < 2 ^ 32 \<Longrightarrow> (of_nat n :: 32 word) = 0 \<longleftrightarrow> n = 0"
proof
  assume "n < 2 ^ 32" "(of_nat n :: 32 word) = 0"
  from of_nat_inverse [OF this(2)] this(1) show "n = 0" by simp
qed simp


lemma getIndegree_fold_setIndegree:
  "getIndegree (fold (\<lambda>v. setIndegree v n) vs g) u = (if u \<in> set vs then n else getIndegree g u)"
  by (induction vs arbitrary: g) auto

lemma count_edges:
  "getIndegree (fold (\<lambda>e k. setIndegree (getDest k e) (getIndegree k (getDest k e) + 1) k) es h) w
     = getIndegree h w + of_nat (edges_into h w es)"
proof (induction es arbitrary: h)
  case Nil
  show ?case by (simp add: edges_into_simps)
next
  case (Cons e es)
  let ?h = "setIndegree (getDest h e) (getIndegree h (getDest h e) + 1) h"
  have c: "edges_into ?h w es = edges_into h w es" by (simp add: edges_into_def)
  show ?case using Cons.IH [where h = ?h] by (simp add: c edges_into_simps)
qed

lemma count_vertices:
  "getIndegree (fold (\<lambda>v h. fold (\<lambda>e k. setIndegree (getDest k e) (getIndegree k (getDest k e) + 1) k)
                    (getAdj h v) h) vs g) w
     = getIndegree g w + of_nat (edges_into g w (concat (map (getAdj g) vs)))"
proof (induction vs arbitrary: g)
  case Nil
  show ?case by (simp add: edges_into_simps)
next
  case (Cons v vs)
  let ?h = "fold (\<lambda>e k. setIndegree (getDest k e) (getIndegree k (getDest k e) + 1) k) (getAdj g v) g"
  have s: "same_structure g ?h" by (rule same_structure_fold) simp
  have a: "map (getAdj ?h) vs = map (getAdj g) vs" by (simp add: same_structure_fields [OF s])
  show ?case using Cons.IH [where g = ?h]
    by (simp add: count_edges a edges_into_cong [OF s] edges_into_simps)
qed

lemma edges_left_Nil: "edges_left g [] = concat (map (getAdj g) (vertexSet g))"
  by (simp add: edges_left_def)

lemma count_indegrees_counts:
  assumes "w \<in> set (vertexSet g)"
  shows "getIndegree (count_indegrees (fold (\<lambda>v. setIndegree v 0) (vertexSet g) g)) w =
    of_nat (edges_into g w (edges_left g []))"
proof -
  let ?g1 = "fold (\<lambda>v. setIndegree v 0) (vertexSet g) g"
  have s: "same_structure g ?g1" by (rule same_structure_fold) simp
  have a: "map (getAdj ?g1) (vertexSet g) = map (getAdj g) (vertexSet g)"
    by (simp add: same_structure_fields [OF s])
  show ?thesis
    unfolding count_indegrees_def same_structure_fields(1) [OF s] count_vertices
    using assms
    by (simp add: getIndegree_fold_setIndegree a edges_into_cong [OF s] edges_left_Nil)
qed

lemma kahn_state_init:
  assumes fits: "indegree_fits g" and d: "distinct (vertexSet g)"
  defines "g2 \<equiv> count_indegrees (fold (\<lambda>v. setIndegree v 0) (vertexSet g) g)"
  shows "kahn_state g [] [] ([] @ filter (\<lambda>v. getIndegree g2 v = 0) (vertexSet g2)) g2"
proof -
  let ?g1 = "fold (\<lambda>v. setIndegree v 0) (vertexSet g) g"
  have s1: "same_structure g ?g1" by (rule same_structure_fold) simp
  have s: "same_structure g g2"
    unfolding g2_def by (rule same_structure_trans [OF s1]) simp
  have V: "vertexSet g2 = vertexSet g" by (rule same_structure_fields [OF s])
  have c: "getIndegree g2 w = of_nat (edges_into g w (edges_left g []))"
    if "w \<in> set (vertexSet g)" for w
    unfolding g2_def by (rule count_indegrees_counts [OF that])
  have b: "edges_into g w (edges_left g []) < 2 ^ 32" if "w \<in> set (vertexSet g)" for w
    using fits that by (simp add: indegree_fits_def)
  have z: "getIndegree g2 w = 0 \<longleftrightarrow> edges_into g w (edges_left g []) = 0"
    if "w \<in> set (vertexSet g)" for w
    unfolding c [OF that] by (rule word32_of_nat_eq_0 [OF b [OF that]])
  have "set (filter (\<lambda>v. getIndegree g2 v = 0) (vertexSet g)) =
      {w \<in> set (vertexSet g). edges_into g w (edges_left g []) = 0}"
    using z by auto
  with s d b c show ?thesis
    unfolding kahn_state_def V by simp
qed

lemma edges_into_scan:
  "edges_into g x (xs @ e # es) = edges_into g x (xs @ es) + (if getDest g e = x then 1 else 0)"
  by (simp add: edges_into_simps)

section \<open>Scanning the edges of an emitted vertex\<close>

lemma kahn_state_scan:
  assumes st: "kahn_state g0 out (e # es) L g" and w: "getDest g0 e \<in> set (vertexSet g0)"
  defines "w \<equiv> getDest g e"
  defines "g' \<equiv> setIndegree w (getIndegree g w - 1) g"
  shows "kahn_state g0 out es (if getIndegree g' w = 0 then L @ [w] else L) g'"
proof -
  let ?c = "\<lambda>x. edges_into g0 x (edges_left g0 out @ es)"
  from st [unfolded kahn_state_def edges_into_scan]
  have s: "same_structure g0 g" and d: "distinct L"
    and c: "\<And>x. x \<in> set (vertexSet g0) \<Longrightarrow>
        ?c x + (if getDest g0 e = x then 1 else 0) < 2 ^ 32 \<and>
        getIndegree g x = of_nat (?c x + (if getDest g0 e = x then 1 else 0))"
    and L: "set L = {x \<in> set (vertexSet g0). ?c x + (if getDest g0 e = x then 1 else 0) = 0}"
    by blast+
  have w0: "w = getDest g0 e" by (simp add: w_def same_structure_fields [OF s])
  have wV: "w \<in> set (vertexSet g0)" using w by (simp add: w0)
  have s': "same_structure g0 g'"
    unfolding g'_def by (rule same_structure_trans [OF s]) simp
  have b: "?c x < 2 ^ 32" if "x \<in> set (vertexSet g0)" for x
    using c [OF that] by (simp split: if_splits)
  have iw: "getIndegree g' w = of_nat (?c w)"
    using c [OF wV] by (simp add: g'_def w0)
  have i: "getIndegree g' x = of_nat (?c x)" if "x \<in> set (vertexSet g0)" for x
  proof (cases "x = w")
    case True
    with iw show ?thesis by simp
  next
    case False
    with c [OF that] show ?thesis by (simp add: g'_def w0)
  qed
  have z: "getIndegree g' w = 0 \<longleftrightarrow> ?c w = 0"
    unfolding iw by (rule word32_of_nat_eq_0 [OF b [OF wV]])
  have wL: "w \<notin> set L" using L by (simp add: w0)
  have L': "set L = {x \<in> set (vertexSet g0). ?c x = 0} - {w}"
    unfolding L by (auto simp: w0)
  show ?thesis
  proof (cases "?c w = 0")
    case True
    with z have "getIndegree g' w = 0" by simp
    moreover have "kahn_state g0 out es (L @ [w]) g'"
      unfolding kahn_state_def using s' d wL b i True wV by (auto simp: L')
    ultimately show ?thesis by simp
  next
    case False
    with z have "getIndegree g' w \<noteq> 0" by simp
    moreover have "kahn_state g0 out es L g'"
      unfolding kahn_state_def using s' d b i False by (auto simp: L')
    ultimately show ?thesis by simp
  qed
qed

lemma topsort_adj_state:
  assumes "kahn_state g0 out es L g" and "\<forall>e\<in>set es. getDest g0 e \<in> set (vertexSet g0)"
  shows "\<exists>new. fst (topsort_adj es q g) = q @ new \<and>
    kahn_state g0 out [] (L @ new) (snd (topsort_adj es q g))"
  using assms
proof (induction es arbitrary: q L g)
  case Nil
  then show ?case by simp
next
  case (Cons e es)
  let ?w = "getDest g e"
  let ?g' = "setIndegree ?w (getIndegree g ?w - 1) g"
  from Cons.prems(2) have e: "getDest g0 e \<in> set (vertexSet g0)"
    and es: "\<forall>e\<in>set es. getDest g0 e \<in> set (vertexSet g0)" by simp_all
  note st = kahn_state_scan [OF Cons.prems(1) e]
  show ?case
  proof (cases "getIndegree ?g' ?w = 0")
    case True
    with st have "kahn_state g0 out es (L @ [?w]) ?g'" by simp
    from Cons.IH [OF this es, where q = "q @ [?w]"] obtain new where
      "fst (topsort_adj es (q @ [?w]) ?g') = (q @ [?w]) @ new"
      "kahn_state g0 out [] ((L @ [?w]) @ new) (snd (topsort_adj es (q @ [?w]) ?g'))" by blast
    with True have "fst (topsort_adj (e # es) q g) = q @ (?w # new) \<and>
      kahn_state g0 out [] (L @ ?w # new) (snd (topsort_adj (e # es) q g))"
      by (simp add: Let_def)
    then show ?thesis by blast
  next
    case False
    with st have "kahn_state g0 out es L ?g'" by simp
    from Cons.IH [OF this es, where q = q] obtain new where
      "fst (topsort_adj es q ?g') = q @ new"
      "kahn_state g0 out [] (L @ new) (snd (topsort_adj es q ?g'))" by blast
    with False have "fst (topsort_adj (e # es) q g) = q @ new \<and>
      kahn_state g0 out [] (L @ new) (snd (topsort_adj (e # es) q g))"
      by (simp add: Let_def)
    then show ?thesis by blast
  qed
qed

section \<open>Kahn's algorithm\<close>

lemma topsort_loop_Nil: "topsort_loop [] g res = Some (res, g)"
  by (subst topsort_loop.simps) simp

lemma topsort_loop_Cons:
  "topsort_loop (v # q) g res =
     topsort_loop (fst (topsort_adj (getAdj g v) q g)) (snd (topsort_adj (getAdj g v) q g))
       (res @ [getInfo g v])"
  by (subst topsort_loop.simps) (simp add: case_prod_beta)

lemma distinct_subset_length:
  "distinct xs \<Longrightarrow> distinct ys \<Longrightarrow> set xs \<subseteq> set ys \<Longrightarrow> length xs \<le> length ys"
  using card_mono [of "set ys" "set xs"] by (simp add: distinct_card)

lemma kahn_state_subset: "kahn_state g0 out es L g \<Longrightarrow> set L \<subseteq> set (vertexSet g0)"
  by (auto simp: kahn_state_def)

lemma kahn_state_no_edge:
  assumes st: "kahn_state g0 out [] L g" and v: "v \<in> set L"
    and uv: "(u, v) \<in> edge_rel g0"
  shows "u \<in> set out"
proof (rule ccontr)
  assume n: "u \<notin> set out"
  from uv obtain e where u: "u \<in> set (vertexSet g0)" and e: "e \<in> set (getAdj g0 u)"
    and ev: "getDest g0 e = v" by (auto simp: edge_rel_def)
  from u n e have "e \<in> set (edges_left g0 out)" by (auto simp: edges_left_def)
  with ev have "e \<in> set (filter (\<lambda>e. getDest g0 e = v) (edges_left g0 out))" by simp
  from length_pos_if_in_set [OF this] have "edges_into g0 v (edges_left g0 out) \<noteq> 0"
    unfolding edges_into_def by simp
  moreover from st v have "edges_into g0 v (edges_left g0 out) = 0"
    by (auto simp: kahn_state_def)
  ultimately show False by simp
qed

lemma kahn_state_edge:
  assumes st: "kahn_state g0 out [] L g" and v: "v \<in> set (vertexSet g0)" "v \<notin> set L"
  shows "\<exists>u. u \<in> set (vertexSet g0) \<and> u \<notin> set out \<and> (u, v) \<in> edge_rel g0"
proof -
  from st v have "edges_into g0 v (edges_left g0 out) \<noteq> 0" by (auto simp: kahn_state_def)
  then have "filter (\<lambda>e. getDest g0 e = v) (edges_left g0 out) \<noteq> []"
    by (simp add: edges_into_def)
  then obtain e where "e \<in> set (edges_left g0 out)" "getDest g0 e = v"
    by (auto simp: filter_empty_conv)
  then show ?thesis by (auto simp: edges_left_def edge_rel_def)
qed

lemma kahn_state_pop:
  assumes st: "kahn_state g0 out [] L g" and d: "distinct (vertexSet g0)"
    and v: "v \<in> set L" "v \<notin> set out"
  shows "kahn_state g0 (out @ [v]) (getAdj g0 v) L g"
proof -
  from st v have vV: "v \<in> set (vertexSet g0)" by (auto simp: kahn_state_def)
  have eq: "edges_into g0 w (edges_left g0 (out @ [v]) @ getAdj g0 v) =
      edges_into g0 w (edges_left g0 out @ [])" for w
    using edges_left_emit [OF d vV v(2), where w = w and es' = "[]"]
    by (simp add: edges_into_simps)
  show ?thesis
    unfolding kahn_state_def eq using st [unfolded kahn_state_def] .
qed

lemma topo_sorted_snoc:
  assumes "topo_sorted E out" and "\<And>u. (u, v) \<in> E \<Longrightarrow> u \<in> set out"
  shows "topo_sorted E (out @ [v])"
  unfolding topo_sorted_def
proof (intro allI impI)
  fix i u
  assume i: "i < length (out @ [v])" and e: "(u, (out @ [v]) ! i) \<in> E"
  show "u \<in> set (take i (out @ [v]))"
  proof (cases "i < length out")
    case True
    with e assms(1) show ?thesis by (auto simp: topo_sorted_def nth_append)
  next
    case False
    with i have "i = length out" by simp
    with e assms(2) show ?thesis by simp
  qed
qed

lemma topsort_loop_total:
  assumes "kahn_state g0 out [] (out @ q) g" and "links_inv g0" and "distinct (vertexSet g0)"
    and "topo_sorted (edge_rel g0) out" and "length (vertexSet g0) - length out \<le> n"
  shows "\<exists>out' g'. topsort_loop q g (map (getInfo g0) out) = Some (map (getInfo g0) out', g') \<and>
    kahn_state g0 out' [] out' g' \<and> topo_sorted (edge_rel g0) out'"
  using assms
proof (induction n arbitrary: out q g)
  case 0
  from 0(1) have d: "distinct (out @ q)" and sub: "set (out @ q) \<subseteq> set (vertexSet g0)"
    by (auto simp: kahn_state_def)
  have "length (out @ q) \<le> length (vertexSet g0)"
    using d 0(3) sub by (rule distinct_subset_length)
  with 0(5) have "q = []" by (cases q) auto
  with 0 show ?case by (auto simp: topsort_loop_Nil)
next
  case (Suc n)
  note st = Suc.prems(1) and links = Suc.prems(2) and dV = Suc.prems(3) and ts = Suc.prems(4)
  show ?case
  proof (cases q)
    case Nil
    with Suc.prems show ?thesis by (auto simp: topsort_loop_Nil)
  next
    case (Cons v q')
    from st have s: "same_structure g0 g" and d: "distinct (out @ q)"
      and sub: "set (out @ q) \<subseteq> set (vertexSet g0)" by (auto simp: kahn_state_def)
    from d sub Cons have v: "v \<in> set (out @ q)" "v \<notin> set out" "v \<in> set (vertexSet g0)"
      by auto
    have len: "length (out @ q) \<le> length (vertexSet g0)"
      using d dV sub by (rule distinct_subset_length)
    have adj: "getAdj g v = getAdj g0 v" and inf: "getInfo g v = getInfo g0 v"
      by (simp_all add: same_structure_fields [OF s])
    have dests: "\<forall>e\<in>set (getAdj g0 v). getDest g0 e \<in> set (vertexSet g0)"
      using links_inv_adjD [OF links v(3)] by blast
    from kahn_state_pop [OF st dV v(1,2)]
    have st1: "kahn_state g0 (out @ [v]) (getAdj g0 v) (out @ q) g" .
    from topsort_adj_state [OF st1 dests, where q = q'] obtain new where
      q'': "fst (topsort_adj (getAdj g0 v) q' g) = q' @ new" and
      st2: "kahn_state g0 (out @ [v]) [] ((out @ q) @ new) (snd (topsort_adj (getAdj g0 v) q' g))"
      by blast
    have st3: "kahn_state g0 (out @ [v]) [] ((out @ [v]) @ q' @ new)
        (snd (topsort_adj (getAdj g0 v) q' g))"
      using st2 by (simp add: Cons)
    have ts': "topo_sorted (edge_rel g0) (out @ [v])"
      using ts by (rule topo_sorted_snoc) (rule kahn_state_no_edge [OF st v(1)])
    have m: "length (vertexSet g0) - length (out @ [v]) \<le> n"
      using Suc.prems(5) len Cons by simp
    from Suc.IH [OF st3 links dV ts' m] obtain out' g' where
      "topsort_loop (q' @ new) (snd (topsort_adj (getAdj g0 v) q' g))
          (map (getInfo g0) (out @ [v])) = Some (map (getInfo g0) out', g')"
      "kahn_state g0 out' [] out' g'" "topo_sorted (edge_rel g0) out'" by blast
    then show ?thesis
      unfolding Cons topsort_loop_Cons adj inf q'' by (intro exI [where x = out'] exI [where x = g']) simp
  qed
qed

lemma topo_sorted_precedes:
  assumes ts: "topo_sorted E xs" and d: "distinct xs" and b: "b \<in> set xs"
    and ab: "(a, b) \<in> E\<^sup>+"
  shows "precedes xs a b"
  using ab b
proof (induction rule: trancl_induct)
  case (base y)
  from base(2) obtain j where j: "j < length xs" "xs ! j = y" by (auto simp: in_set_conv_nth)
  with ts base(1) have "a \<in> set (take j xs)" by (auto simp: topo_sorted_def)
  then obtain i where "i < length (take j xs)" "take j xs ! i = a"
    by (auto simp: in_set_conv_nth)
  with j show ?case unfolding precedes_def by (intro exI [where x = i] exI [where x = j]) simp
next
  case (step y z)
  from step(4) obtain k where k: "k < length xs" "xs ! k = z" by (auto simp: in_set_conv_nth)
  with ts step(2) have "y \<in> set (take k xs)" by (auto simp: topo_sorted_def)
  then obtain j where j: "j < length (take k xs)" "take k xs ! j = y"
    by (auto simp: in_set_conv_nth)
  then have j': "j < k" "j < length xs" "xs ! j = y" by simp_all
  then have "y \<in> set xs" by (auto simp: in_set_conv_nth)
  from step.IH [OF this] obtain i j0 where ij: "i < j0" "j0 < length xs" "xs ! i = a" "xs ! j0 = y"
    by (auto simp: precedes_def)
  from nth_eq_iff_index_eq [OF d ij(2) j'(2)] ij(4) j'(3) have "j0 = j" by simp
  with ij j' k show ?case unfolding precedes_def
    by (intro exI [where x = i] exI [where x = k]) simp
qed

lemma precedes_irrefl: "distinct xs \<Longrightarrow> \<not> precedes xs a a"
  by (auto simp: precedes_def nth_eq_iff_index_eq)

lemma precedes_map: "precedes xs a b \<Longrightarrow> precedes (map f xs) (f a) (f b)"
  unfolding precedes_def
proof (elim exE conjE)
  fix i j assume "i < j" "j < length xs" "xs ! i = a" "xs ! j = b"
  then have "i < j \<and> j < length (map f xs) \<and> map f xs ! i = f a \<and> map f xs ! j = f b"
    by simp
  then show "\<exists>i j. i < j \<and> j < length (map f xs) \<and> map f xs ! i = f a \<and> map f xs ! j = f b"
    by blast
qed

lemma topo_sorted_acyclic:
  assumes "topo_sorted E xs" "distinct xs" "Range E \<subseteq> set xs"
  shows "acyclic E"
proof (rule acyclicI, intro allI notI)
  fix x assume x: "(x, x) \<in> E\<^sup>+"
  then have "x \<in> Range E" by (auto elim: tranclE)
  with assms(3) have "x \<in> set xs" by blast
  from topo_sorted_precedes [OF assms(1,2) this x] precedes_irrefl [OF assms(2)]
  show False by blast
qed

lemma finite_edge_rel: "finite (edge_rel g)"
proof -
  have "edge_rel g \<subseteq> (\<Union>u\<in>set (vertexSet g). (\<lambda>e. (u, getDest g e)) ` set (getAdj g u))"
    by (auto simp: edge_rel_def)
  then show ?thesis by (rule finite_subset) simp
qed

lemma kahn_complete:
  assumes st: "kahn_state g0 out [] out g" and ac: "acyclic (edge_rel g0)"
  shows "set out = set (vertexSet g0)"
proof (rule ccontr)
  assume "set out \<noteq> set (vertexSet g0)"
  with kahn_state_subset [OF st] obtain x where x: "x \<in> set (vertexSet g0) - set out" by blast
  from ac have "wf (edge_rel g0)" by (rule finite_acyclic_wf [OF finite_edge_rel])
  from wfE_min [OF this x] obtain z where z: "z \<in> set (vertexSet g0) - set out"
    and m: "\<And>y. (y, z) \<in> edge_rel g0 \<Longrightarrow> y \<notin> set (vertexSet g0) - set out" by blast
  from kahn_state_edge [OF st] z obtain u where
    "u \<in> set (vertexSet g0)" "u \<notin> set out" "(u, z) \<in> edge_rel g0" by blast
  with m show False by blast
qed

section \<open>Topological order\<close>

lemma Range_edge_rel: "links_inv g \<Longrightarrow> Range (edge_rel g) \<subseteq> set (vertexSet g)"
  by (auto simp: edge_rel_def dest: links_inv_adjD)

lemma edge_rel_vertices:
  "links_inv g \<Longrightarrow> (u, w) \<in> edge_rel g \<Longrightarrow> u \<in> set (vertexSet g) \<and> w \<in> set (vertexSet g)"
  by (auto simp: edge_rel_def dest: links_inv_adjD)

lemma topsort_total:
  assumes wf: "wf_graph g" and fits: "indegree_fits g"
  shows "\<exists>order g'. topsort g = Some (if acyclic (edge_rel g) then map (getInfo g) order else [], g') \<and>
    same_structure g g' \<and> distinct order \<and> topo_sorted (edge_rel g) order \<and>
    (acyclic (edge_rel g) \<longrightarrow> set order = set (vertexSet g))"
proof -
  from wf have lnk: "links_inv g" and idx: "index_inv g" by (simp_all add: wf_graph_def)
  note dV = index_inv_distinct [OF idx]
  let ?g2 = "count_indegrees (fold (\<lambda>v. setIndegree v 0) (vertexSet g) g)"
  let ?q = "filter (\<lambda>v. getIndegree ?g2 v = 0) (vertexSet ?g2)"
  have t0: "topo_sorted (edge_rel g) []" by (simp add: topo_sorted_def)
  have "length (vertexSet g) - length ([] :: vref list) \<le> length (vertexSet g)" by simp
  from topsort_loop_total [OF kahn_state_init [OF fits dV] lnk dV t0 this]
  obtain out g' where run: "topsort_loop ?q ?g2 [] = Some (map (getInfo g) out, g')"
    and st: "kahn_state g out [] out g'" and ts: "topo_sorted (edge_rel g) out"
    by auto
  from st have s: "same_structure g g'" and d: "distinct out"
    and sub: "set out \<subseteq> set (vertexSet g)" by (auto simp: kahn_state_def)
  have V: "vertexSet g' = vertexSet g" by (rule same_structure_fields [OF s])
  have len: "length out = length (vertexSet g) \<longleftrightarrow> acyclic (edge_rel g)"
  proof
    assume "length out = length (vertexSet g)"
    with d dV have "card (set out) = card (set (vertexSet g))" by (simp add: distinct_card)
    with sub have "set out = set (vertexSet g)" by (intro card_subset_eq) simp_all
    with Range_edge_rel [OF lnk] have "Range (edge_rel g) \<subseteq> set out" by simp
    with ts d show "acyclic (edge_rel g)" by (rule topo_sorted_acyclic)
  next
    assume "acyclic (edge_rel g)"
    from kahn_complete [OF st this] have "card (set out) = card (set (vertexSet g))" by simp
    with d dV show "length out = length (vertexSet g)" by (simp add: distinct_card)
  qed
  have "topsort g = Some (if acyclic (edge_rel g) then map (getInfo g) out else [], g')"
    unfolding topsort_def Let_def run using len by (simp add: V)
  moreover have "acyclic (edge_rel g) \<longrightarrow> set out = set (vertexSet g)"
    using kahn_complete [OF st] by blast
  ultimately show ?thesis using s d ts by blast
qed

text \<open>
  C1. On a well-formed graph in which every vertex has fewer than \<open>2\<^sup>3\<^sup>2\<close> incoming edges,
  \<open>topsort()\<close> and \<open>isDAG()\<close> return; the result of \<open>topsort()\<close> is a permutation of the
  keys of the graph exactly when \<open>isDAG()\<close> returns true, and is empty when \<open>isDAG()\<close>
  returns false; in a result that is not empty the key of \<open>u\<close> stands before the key of
  \<open>w\<close> for every edge from \<open>u\<close> to \<open>w\<close>.
\<close>

theorem topsort_iff_isDAG:
  assumes wf: "wf_graph g" and fits: "indegree_fits g"
  shows "\<exists>res g1 b g2. topsort g = Some (res, g1) \<and> isDAG g = Some (b, g2) \<and>
    (mset res = mset (map (getInfo g) (vertexSet g)) \<longleftrightarrow> b) \<and>
    (\<not> b \<longrightarrow> res = []) \<and>
    (res \<noteq> [] \<longrightarrow>
       (\<forall>u w. (u, w) \<in> edge_rel g \<longrightarrow> precedes res (getInfo g u) (getInfo g w)))"
proof -
  from wf have lnk: "links_inv g" and idx: "index_inv g" by (simp_all add: wf_graph_def)
  note dV = index_inv_distinct [OF idx]
  from isDAG_total [OF wf] obtain b g2 where dag: "isDAG g = Some (b, g2)"
    and b: "b \<longleftrightarrow> acyclic (edge_rel g)" by blast
  from topsort_total [OF wf fits] obtain order g1 where
    run: "topsort g = Some (if acyclic (edge_rel g) then map (getInfo g) order else [], g1)"
    and d: "distinct order" and ts: "topo_sorted (edge_rel g) order"
    and all: "acyclic (edge_rel g) \<longrightarrow> set order = set (vertexSet g)" by blast
  let ?res = "if acyclic (edge_rel g) then map (getInfo g) order else []"
  have 1: "mset ?res = mset (map (getInfo g) (vertexSet g)) \<longleftrightarrow> b"
  proof (cases "acyclic (edge_rel g)")
    case True
    with all d dV have "mset order = mset (vertexSet g)"
      by (simp add: set_eq_iff_mset_eq_distinct)
    then have "mset (map (getInfo g) order) = mset (map (getInfo g) (vertexSet g))"
      by (metis mset_map)
    with True b show ?thesis by simp
  next
    case False
    then obtain x where "(x, x) \<in> (edge_rel g)\<^sup>+" by (auto simp: acyclic_def)
    then obtain y where "(x, y) \<in> edge_rel g" by (auto elim: tranclE dest: converse_tranclE)
    with edge_rel_vertices [OF lnk this] have "vertexSet g \<noteq> []" by auto
    with False b show ?thesis by simp
  qed
  have 2: "\<not> b \<longrightarrow> ?res = []" using b by simp
  have 3: "?res \<noteq> [] \<longrightarrow>
    (\<forall>u w. (u, w) \<in> edge_rel g \<longrightarrow> precedes ?res (getInfo g u) (getInfo g w))"
  proof (intro impI allI)
    fix u w assume ne: "?res \<noteq> []" and uw: "(u, w) \<in> edge_rel g"
    from ne have ac: "acyclic (edge_rel g)" by (simp split: if_splits)
    with all edge_rel_vertices [OF lnk uw] have "w \<in> set order" by simp
    from topo_sorted_precedes [OF ts d this] uw have "precedes order u w" by blast
    then have "precedes (map (getInfo g) order) (getInfo g u) (getInfo g w)"
      by (rule precedes_map)
    with ac show "precedes ?res (getInfo g u) (getInfo g w)" by simp
  qed
  from run dag 1 2 3 show ?thesis by blast
qed

lemma indegree_fitsI: "length (edges_left g []) < 2 ^ 32 \<Longrightarrow> indegree_fits g"
  unfolding indegree_fits_def edges_into_def
  by (meson le_less_trans length_filter_le)

lemma fits_S4: "indegree_fits graph_S4"
proof (rule indegree_fitsI)
  have "length (edges_left graph_S4 []) = 4" by code_simp
  then show "length (edges_left graph_S4 []) < 2 ^ 32" by simp
qed

theorem topsort_iff_isDAG_witness:
  "(\<exists>res g1 b g2. topsort graph_S4 = Some (res, g1) \<and> isDAG graph_S4 = Some (b, g2) \<and>
      (mset res = mset (map (getInfo graph_S4) (vertexSet graph_S4)) \<longleftrightarrow> b) \<and>
      (\<not> b \<longrightarrow> res = []) \<and>
      (res \<noteq> [] \<longrightarrow>
        (\<forall>u w. (u, w) \<in> edge_rel graph_S4 \<longrightarrow>
           precedes res (getInfo graph_S4 u) (getInfo graph_S4 w)))) \<and>
   map_option fst (topsort graph_S4) = Some [1, 2, 3, 4]"
proof
  show "\<exists>res g1 b g2. topsort graph_S4 = Some (res, g1) \<and> isDAG graph_S4 = Some (b, g2) \<and>
      (mset res = mset (map (getInfo graph_S4) (vertexSet graph_S4)) \<longleftrightarrow> b) \<and>
      (\<not> b \<longrightarrow> res = []) \<and>
      (res \<noteq> [] \<longrightarrow>
        (\<forall>u w. (u, w) \<in> edge_rel graph_S4 \<longrightarrow>
           precedes res (getInfo graph_S4 u) (getInfo graph_S4 w)))"
    by (rule topsort_iff_isDAG [OF reachable_wf_graph [OF reachable_graph_S4] fits_S4])
  show "map_option fst (topsort graph_S4) = Some [1, 2, 3, 4]" by code_simp
qed

section \<open>In-degrees beyond the counter\<close>

lemma two_keys_addEdge:
  assumes "two_keys g"
  shows "two_keys (snd (addEdge 1 2 w g)) \<and>
    length (getAdj (snd (addEdge 1 2 w g)) 0) = Suc (length (getAdj g 0))"
  using assms by (auto simp: two_keys_def addEdge_def findVertex_def)

lemma two_keys_addEdges:
  "two_keys g \<Longrightarrow> two_keys (addEdges (replicate n (1, 2, w)) g) \<and>
    length (getAdj (addEdges (replicate n (1, 2, w)) g) 0) = length (getAdj g 0) + n"
proof (induction n arbitrary: g)
  case 0
  then show ?case by simp
next
  case (Suc n)
  from two_keys_addEdge [OF Suc.prems, where w = w]
  have 1: "two_keys (snd (addEdge 1 2 w g))"
    and 2: "length (getAdj (snd (addEdge 1 2 w g)) 0) = Suc (length (getAdj g 0))" by simp_all
  from Suc.IH [OF 1] 2 show ?case by simp
qed

lemma two_keys_start: "two_keys (addVertices [1, 2] empty_graph)"
  by (simp add: two_keys_def build_defs)

lemma adj_start: "getAdj (addVertices [1, 2] empty_graph) 0 = []"
  by (simp add: build_defs)

lemma two_keys_graph_wrap: "two_keys graph_wrap" "length (getAdj graph_wrap 0) = 2 ^ 32"
  unfolding graph_wrap_def
  using two_keys_addEdges [OF two_keys_start, where n = "2 ^ 32" and w = 1]
  by (simp_all only: adj_start list.size add_0)


lemma topsort_adj_parallel:
  assumes "\<forall>e\<in>set es. getDest g e = w" and "getIndegree g w = of_nat m"
    and "length es \<le> m" and "m \<le> 2 ^ 32" and "es \<noteq> []"
  shows "fst (topsort_adj es q g) = (if length es = m then q @ [w] else q)"
  using assms
proof (induction es arbitrary: m g)
  case Nil
  then show ?case by simp
next
  case (Cons e es)
  from Cons.prems(3) obtain k where m: "m = Suc k" by (cases m) auto
  let ?g' = "setIndegree w (getIndegree g w - 1) g"
  from Cons.prems(1) have e: "getDest g e = w" by simp
  have i: "getIndegree ?g' w = of_nat k" using Cons.prems(2) by (simp add: m)
  from Cons.prems(4) have k: "k < 2 ^ 32" by (simp add: m)
  have z: "getIndegree ?g' w = 0 \<longleftrightarrow> k = 0"
    unfolding i by (rule word32_of_nat_eq_0 [OF k])
  show ?case
  proof (cases "k = 0")
    case True
    with Cons.prems(3) have "es = []" by (simp add: m)
    with True z show ?thesis by (simp add: e m Let_def)
  next
    case False
    with z have nz: "getIndegree ?g' w \<noteq> 0" by simp
    have step: "topsort_adj (e # es) q g = topsort_adj es q ?g'"
      using nz by (simp add: e Let_def)
    show ?thesis
    proof (cases "es = []")
      case True
      with False show ?thesis unfolding step by (simp add: m)
    next
      case ne: False
      have "fst (topsort_adj es q ?g') = (if length es = k then q @ [w] else q)"
      proof (rule Cons.IH [OF _ i _ _ ne])
        show "\<forall>e\<in>set es. getDest ?g' e = w" using Cons.prems(1) by simp
        show "length es \<le> k" using Cons.prems(3) by (simp add: m)
        show "k \<le> 2 ^ 32" using k by simp
      qed
      then show ?thesis unfolding step by (simp add: m)
    qed
  qed
qed

lemma wf_graph_wrap: "wf_graph graph_wrap"
  unfolding graph_wrap_def
  by (intro reachable_wf_graph reachable_addEdges reachable_addVertices reachable_empty_graph)

lemma acyclic_graph_wrap: "acyclic (edge_rel graph_wrap)"
proof -
  have "edge_rel graph_wrap \<subseteq> {(0, 1)}"
    using two_keys_graph_wrap(1) by (auto simp: edge_rel_def two_keys_def)
  moreover have "acyclic {(0 :: nat, 1 :: nat)}" by (simp add: acyclic_insert wf_acyclic)
  ultimately show ?thesis by (rule acyclic_subset [rotated])
qed

lemma topsort_graph_wrap: "\<exists>g'. topsort graph_wrap = Some ([], g')"
proof -
  define g where "g = graph_wrap"
  define g2 where "g2 = count_indegrees (fold (\<lambda>v. setIndegree v 0) (vertexSet g) g)"
  note tk = two_keys_graph_wrap(1) [folded g_def, unfolded two_keys_def]
  note len = two_keys_graph_wrap(2) [folded g_def]
  from tk have V: "vertexSet g = [0, 1]" and a1: "getAdj g 1 = []"
    and k0: "getInfo g 0 = 1" and k1: "getInfo g 1 = 2"
    and d: "\<forall>e\<in>set (getAdj g 0). getDest g e = 1" by simp_all
  have s2: "same_structure g g2"
    unfolding g2_def
    by (rule same_structure_trans [where g' = "fold (\<lambda>v. setIndegree v 0) (vertexSet g) g"])
      (rule same_structure_fold, simp, simp)
  note f2 = same_structure_fields [OF s2]
  have el: "edges_left g [] = getAdj g 0"
    unfolding edges_left_Nil V by (simp add: a1 del: One_nat_def)
  have "filter (\<lambda>e. getDest g e = 0) (getAdj g 0) = []" using d by (auto simp: filter_empty_conv)
  then have c0: "edges_into g 0 (getAdj g 0) = 0" by (simp add: edges_into_def)
  have "filter (\<lambda>e. getDest g e = 1) (getAdj g 0) = getAdj g 0" using d by (simp add: filter_id_conv)
  then have c1: "edges_into g 1 (getAdj g 0) = 2 ^ 32"
    by (simp add: edges_into_def len)
  have i0: "getIndegree g2 0 = 0"
    using count_indegrees_counts [where g = g and w = 0] by (simp add: V el c0 g2_def)
  have i1: "getIndegree g2 1 = of_nat (2 ^ 32)"
    using count_indegrees_counts [where g = g and w = 1]
    unfolding el c1 g2_def [symmetric] by (simp add: V)
  have i1z: "getIndegree g2 1 = 0" unfolding i1 by simp
  have q: "filter (\<lambda>v. getIndegree g2 v = 0) (vertexSet g2) = [0, 1]"
    unfolding f2(1) V using i0 i1z by (simp del: One_nat_def)
  define r where "r = topsort_adj (getAdj g 0) [1] g2"
  have "fst r = (if length (getAdj g 0) = 2 ^ 32 then [1] @ [1] else [1])"
    unfolding r_def
  proof (rule topsort_adj_parallel [OF _ i1])
    show "\<forall>e\<in>set (getAdj g 0). getDest g2 e = 1" using d by (simp add: f2)
    show "length (getAdj g 0) \<le> 2 ^ 32" by (simp add: len)
    show "(2 :: nat) ^ 32 \<le> 2 ^ 32" by simp
    show "getAdj g 0 \<noteq> []" using len by auto
  qed
  then have r: "fst r = [1, 1]" by (simp add: len)
  have s3: "same_structure g2 (snd r)" unfolding r_def by (rule topsort_adj_frame)
  note f3 = same_structure_fields [OF same_structure_trans [OF s2 s3]]
  have a0: "getAdj g2 0 = getAdj g 0" and a13: "getAdj (snd r) 1 = []"
    and k02: "getInfo g2 0 = 1" and k13: "getInfo (snd r) 1 = 2"
    by (simp_all add: f2 f3 a1 k0 k1 del: One_nat_def)
  have l1: "topsort_loop [0, 1] g2 [] = topsort_loop [1, 1] (snd r) [1]"
    by (subst topsort_loop_Cons) (simp add: a0 k02 r r_def [symmetric] del: One_nat_def)
  have l2: "topsort_loop [1, 1] (snd r) [1] = topsort_loop [1] (snd r) [1, 2]"
    by (subst topsort_loop_Cons) (simp add: a13 k13 del: One_nat_def)
  have l3: "topsort_loop [1] (snd r) [1, 2] = Some ([1, 2, 2], snd r)"
    by (subst topsort_loop_Cons) (simp add: a13 k13 topsort_loop_Nil del: One_nat_def)
  have "topsort g = Some ([], snd r)"
    unfolding topsort_def Let_def g2_def [symmetric] q l1 l2 l3 by (simp add: f3 V)
  then show ?thesis unfolding g_def by blast
qed

theorem topsort_wraps_counterexample:
  "map (getInfo graph_wrap) (vertexSet graph_wrap) = [1, 2] \<and>
   map_option fst (isDAG graph_wrap) = Some True \<and>
   map_option fst (topsort graph_wrap) = Some []"
proof (intro conjI)
  show "map (getInfo graph_wrap) (vertexSet graph_wrap) = [1, 2]"
    using two_keys_graph_wrap(1) by (simp add: two_keys_def)
  from isDAG_total [OF wf_graph_wrap] acyclic_graph_wrap
  show "map_option fst (isDAG graph_wrap) = Some True" by auto
  from topsort_graph_wrap show "map_option fst (topsort graph_wrap) = Some []" by auto
qed

section \<open>The traversals keep the structure of the graph\<close>

lemma dfs_from_total:
  assumes wf: "wf_graph g"
  shows "\<exists>y. dfs_from s g = Some y"
proof (cases "findVertex s g")
  case None
  then show ?thesis by (simp add: dfs_from_def)
next
  case (Some v)
  from wf have idx: "index_inv g" and lnk: "links_inv g" by (simp_all add: wf_graph_def)
  from Some have v: "v \<in> set (vertexSet g)"
    using index_inv_keyD [OF idx] by (auto simp: findVertex_def)
  let ?g0 = "resetVisited g"
  have s0: "same_structure g ?g0" by simp
  have l0: "links_inv ?g0" using lnk by (simp add: same_structure_links_inv [OF s0])
  have v0: "v \<in> unvisited ?g0"
    using v by (simp add: unvisited_def same_structure_fields [OF s0] isVisited_resetVisited)
  from dfsVisit_call_total [OF l0 v0 order_refl, where res = "[]"]
  show ?thesis by (auto simp: dfs_from_def Some dfsVisit_def)
qed

lemma bfs_returns:
  assumes wf: "wf_graph g"
  shows "\<exists>y. bfs s g = Some y"
proof (cases "findVertex s g")
  case None
  then show ?thesis by (simp add: bfs_def)
next
  case (Some v)
  from bfs_total [OF wf Some] show ?thesis by blast
qed

text \<open>
  C10. Whenever \<open>dfs()\<close>, \<open>dfs(source)\<close>, \<open>bfs(source)\<close>, \<open>isDAG()\<close> or \<open>topsort()\<close>
  returns, the graph it leaves has the same structure as the graph it was called on:
  the same vertex sequence and key index, the same edge objects (destination, origin,
  weight, reverse pointer) and, in every vertex, the same fields but for \<^verbatim>\<open>visited\<close>,
  \<^verbatim>\<open>processing\<close> and \<^verbatim>\<open>indegree\<close>; in particular the same \<^verbatim>\<open>adj\<close> and \<^verbatim>\<open>incoming\<close>
  lists. On a well-formed graph the first four return, and so does \<open>topsort()\<close> when
  every vertex has fewer than \<open>2\<^sup>3\<^sup>2\<close> incoming edges.
\<close>

theorem traversals_keep_structure:
  "(\<forall>r g'. dfs g = Some (r, g') \<longrightarrow> same_structure g g') \<and>
   (\<forall>s r g'. dfs_from s g = Some (r, g') \<longrightarrow> same_structure g g') \<and>
   (\<forall>s r g'. bfs s g = Some (r, g') \<longrightarrow> same_structure g g') \<and>
   (\<forall>b g'. isDAG g = Some (b, g') \<longrightarrow> same_structure g g') \<and>
   (\<forall>r g'. topsort g = Some (r, g') \<longrightarrow> same_structure g g') \<and>
   (wf_graph g \<longrightarrow>
      (\<exists>y. dfs g = Some y) \<and> (\<forall>s. \<exists>y. dfs_from s g = Some y) \<and>
      (\<forall>s. \<exists>y. bfs s g = Some y) \<and> (\<exists>y. isDAG g = Some y) \<and>
      (indegree_fits g \<longrightarrow> (\<exists>y. topsort g = Some y)))"
proof (intro conjI allI impI)
  fix r g' assume "dfs g = Some (r, g')"
  then show "same_structure g g'" by (rule dfs_frame)
next
  fix s r g' assume "dfs_from s g = Some (r, g')"
  then show "same_structure g g'" by (rule dfs_from_frame)
next
  fix s r g' assume "bfs s g = Some (r, g')"
  then show "same_structure g g'" by (rule bfs_frame)
next
  fix b g' assume "isDAG g = Some (b, g')"
  then show "same_structure g g'" by (rule isDAG_frame)
next
  fix r g' assume "topsort g = Some (r, g')"
  then show "same_structure g g'" by (rule topsort_frame)
next
  assume wf: "wf_graph g"
  from dfs_total [OF wf] show "\<exists>y. dfs g = Some y" by blast
  from isDAG_total [OF wf] show "\<exists>y. isDAG g = Some y" by blast
  show "\<exists>y. dfs_from s g = Some y" for s by (rule dfs_from_total [OF wf])
  show "\<exists>y. bfs s g = Some y" for s by (rule bfs_returns [OF wf])
  assume "indegree_fits g"
  from topsort_total [OF wf this] show "\<exists>y. topsort g = Some y" by blast
qed

theorem traversals_keep_structure_witness:
  "(\<exists>r g'. dfs graph_S4 = Some (r, g') \<and> same_structure graph_S4 g') \<and>
   (\<exists>r g'. dfs_from 1 graph_S4 = Some (r, g') \<and> same_structure graph_S4 g') \<and>
   (\<exists>r g'. bfs 1 graph_S4 = Some (r, g') \<and> same_structure graph_S4 g') \<and>
   (\<exists>b g'. isDAG graph_S4 = Some (b, g') \<and> same_structure graph_S4 g') \<and>
   (\<exists>r g'. topsort graph_S4 = Some (r, g') \<and> same_structure graph_S4 g')"
  using traversals_keep_structure [where g = graph_S4]
    reachable_wf_graph [OF reachable_graph_S4] fits_S4
  by (metis surj_pair)

end
